theory Spec2Isabelle
  imports Main "HOL-Library.AList"
begin

section \<open>Batch scheduling (index.ts, steps 3 and 4)\<close>

text \<open>
  \<^verbatim>\<open>const MAX_BATCH_SIZE = 100;\<close>
\<close>

definition MAX_BATCH_SIZE :: nat where
  "MAX_BATCH_SIZE = 100"

text \<open>
  \<^verbatim>\<open>Math.ceil(a / b)\<close> on non-negative integers with \<open>b > 0\<close>. The source only
  divides inside \<^verbatim>\<open>if (strings.size > 0)\<close>, where both divisors are positive.
\<close>

definition ceil_div :: "nat \<Rightarrow> nat \<Rightarrow> nat" where
  "ceil_div a b = (a + b - 1) div b"

text \<open>\<^verbatim>\<open>array.slice(from, to)\<close> for \<open>0 \<le> from\<close>.\<close>

definition slice :: "'a list \<Rightarrow> nat \<Rightarrow> nat \<Rightarrow> 'a list" where
  "slice xs from to = take (to - from) (drop from xs)"

text \<open>
  processSingleFile:
  \<^verbatim>\<open>
  for (let i = 0; i < totalStrings; i += dynamicBatchSize) {
    batches.push(stringsArray.slice(i, i + dynamicBatchSize));
  }
  \<close>
  The loop only makes progress for a positive step; the guard \<open>0 < step\<close> keeps the
  recursion well founded and is implied at the one call site (lemma
  \<open>dynamicBatchSize_pos\<close>).
\<close>

function batch_loop :: "'a list \<Rightarrow> nat \<Rightarrow> nat \<Rightarrow> 'a list list" where
  "batch_loop stringsArray step i =
     (if i < length stringsArray \<and> 0 < step
      then slice stringsArray i (i + step) # batch_loop stringsArray step (i + step)
      else [])"
  by pat_completeness auto
termination
  by (relation "measure (\<lambda>(xs, step, i). length xs - i)") auto

declare batch_loop.simps [simp del]

text \<open>
  processSingleFile, step 3:
  \<^verbatim>\<open>
  const totalStrings = stringsArray.length;
  const numBatches = Math.ceil(totalStrings / MAX_BATCH_SIZE);
  const dynamicBatchSize = Math.ceil(totalStrings / numBatches);
  \<close>
\<close>

definition numBatches :: "nat \<Rightarrow> nat" where
  "numBatches totalStrings = ceil_div totalStrings MAX_BATCH_SIZE"

definition dynamicBatchSize :: "nat \<Rightarrow> nat" where
  "dynamicBatchSize totalStrings = ceil_div totalStrings (numBatches totalStrings)"

definition single_file_batches :: "'a list \<Rightarrow> 'a list list" where
  "single_file_batches stringsArray =
     batch_loop stringsArray (dynamicBatchSize (length stringsArray)) 0"

text \<open>
  processMultipleFiles, step 4:
  \<^verbatim>\<open>
  for (let i = 0; i < numBatches; i++) {
    const batchStart = i * MAX_BATCH_SIZE;
    const batchEnd = Math.min(batchStart + MAX_BATCH_SIZE, stringsArray.length);
    const batchStrings = stringsArray.slice(batchStart, batchEnd);
  \<close>
\<close>

definition multi_file_batches :: "'a list \<Rightarrow> 'a list list" where
  "multi_file_batches stringsArray =
     map (\<lambda>i. let batchStart = i * MAX_BATCH_SIZE;
                   batchEnd = min (batchStart + MAX_BATCH_SIZE) (length stringsArray)
               in slice stringsArray batchStart batchEnd)
         [0 ..< numBatches (length stringsArray)]"

section \<open>Documents\<close>

text \<open>
  A parsed JSON document (\<^verbatim>\<open>JsonValue\<close>). An object is its list of own properties in
  enumeration order, each key once; a number is kept as an integer, of which only
  zero or not is ever inspected.
\<close>

datatype json =
    JString string
  | JNumber int
  | JBool bool
  | JNull
  | JArray "json list"
  | JObject "(string \<times> json) list"

datatype js_error = TypeError | RangeError

subsection \<open>Numbers as property names\<close>

text \<open>\<^verbatim>\<open>`[${index}]`\<close>: the decimal numeral of an array index.\<close>

definition digit_char :: "nat \<Rightarrow> char" where
  "digit_char d = ''0123456789'' ! d"

function dec_str :: "nat \<Rightarrow> string" where
  "dec_str n = (if n < 10 then [digit_char n] else dec_str (n div 10) @ [digit_char (n mod 10)])"
  by pat_completeness auto
termination
  by (relation "measure id") auto

declare dec_str.simps [simp del]

text \<open>The value of a digit character, for radix 10 and radix 16.\<close>

definition digit_table :: "(char \<times> nat) list" where
  "digit_table =
     [(CHR ''0'', 0), (CHR ''1'', 1), (CHR ''2'', 2), (CHR ''3'', 3),
      (CHR ''4'', 4), (CHR ''5'', 5), (CHR ''6'', 6), (CHR ''7'', 7),
      (CHR ''8'', 8), (CHR ''9'', 9), (CHR ''a'', 10), (CHR ''b'', 11),
      (CHR ''c'', 12), (CHR ''d'', 13), (CHR ''e'', 14), (CHR ''f'', 15),
      (CHR ''A'', 10), (CHR ''B'', 11), (CHR ''C'', 12), (CHR ''D'', 13),
      (CHR ''E'', 14), (CHR ''F'', 15)]"

definition digit_val :: "char \<Rightarrow> nat option" where
  "digit_val c = map_of digit_table c"

definition is_digit :: "nat \<Rightarrow> char \<Rightarrow> bool" where
  "is_digit radix c = (case digit_val c of None \<Rightarrow> False | Some d \<Rightarrow> d < radix)"

definition digits_val :: "nat \<Rightarrow> string \<Rightarrow> nat" where
  "digits_val radix ds = foldl (\<lambda>acc c. acc * radix + the (digit_val c)) 0 ds"

text \<open>
  White space as \<^verbatim>\<open>parseInt\<close> and \<^verbatim>\<open>trim\<close> see it, among the characters below
  \<open>U+0100\<close> that a \<open>char\<close> holds.
\<close>

definition is_js_space :: "char \<Rightarrow> bool" where
  "is_js_space c \<longleftrightarrow> c \<in> {CHR '' '', CHR 0x09, CHR 0x0A, CHR 0x0B, CHR 0x0C, CHR 0x0D, CHR 0xA0}"

text \<open>
  \<^verbatim>\<open>parseInt(s)\<close> without a radix: leading white space, a sign, an optional
  \<^verbatim>\<open>0x\<close> prefix, then the longest run of digits; \<open>None\<close> is \<^verbatim>\<open>NaN\<close>. The
  result is exact (the source's doubles are exact below \<open>2^53\<close>).
\<close>

definition parseInt :: "string \<Rightarrow> int option" where
  "parseInt s =
     (let s1 = dropWhile is_js_space s;
          negative = (s1 \<noteq> [] \<and> hd s1 = CHR ''-'');
          s2 = (if s1 \<noteq> [] \<and> (hd s1 = CHR ''-'' \<or> hd s1 = CHR ''+'') then tl s1 else s1);
          hex = (take 2 s2 = ''0x'' \<or> take 2 s2 = ''0X'');
          radix = (if hex then 16 else 10);
          s3 = (if hex then drop 2 s2 else s2);
          ds = takeWhile (is_digit radix) s3
      in if ds = [] then None
         else Some (if negative then - int (digits_val radix ds) else int (digits_val radix ds)))"

text \<open>The property name a number is converted to when it indexes a value.\<close>

definition num_key :: "int option \<Rightarrow> string" where
  "num_key n = (case n of None \<Rightarrow> ''NaN''
                | Some i \<Rightarrow> if i < 0 then CHR ''-'' # dec_str (nat (- i)) else dec_str (nat i))"

text \<open>\<^verbatim>\<open>p.startsWith('[') && p.endsWith(']')\<close>\<close>

definition bracketed :: "string \<Rightarrow> bool" where
  "bracketed p \<longleftrightarrow> p \<noteq> [] \<and> hd p = CHR ''['' \<and> last p = CHR '']''"

text \<open>
  The property that applyTranslations addresses for a path segment \<open>p\<close>:
  \<^verbatim>\<open>parent[parseInt(p.slice(1, -1))]\<close> when the segment is bracketed, \<^verbatim>\<open>parent[p]\<close>
  otherwise.
\<close>

definition prop_key :: "string \<Rightarrow> string" where
  "prop_key p = (if bracketed p then num_key (parseInt (butlast (tl p))) else p)"

text \<open>A property name that is an array index: the canonical numeral of a natural number.\<close>

definition array_index :: "string \<Rightarrow> nat option" where
  "array_index k =
     (if k \<noteq> [] \<and> list_all (is_digit 10) k \<and> dec_str (digits_val 10 k) = k
      then Some (digits_val 10 k) else None)"

subsection \<open>Property access\<close>

text \<open>
  \<^verbatim>\<open>parent[k]\<close> as a read; \<open>Inr None\<close> is \<^verbatim>\<open>undefined\<close>. Reading a property of
  \<^verbatim>\<open>null\<close> throws. Only own properties are modelled: inherited members
  (\<^verbatim>\<open>length\<close>, \<^verbatim>\<open>constructor\<close>, ...) read as \<^verbatim>\<open>undefined\<close>.
\<close>

fun js_get :: "json \<Rightarrow> string \<Rightarrow> js_error + json option" where
  "js_get (JObject kvs) k = Inr (map_of kvs k)"
| "js_get (JArray xs) k =
     (case array_index k of
        Some i \<Rightarrow> Inr (if i < length xs then Some (xs ! i) else None)
      | None \<Rightarrow> Inr None)"
| "js_get (JString s) k =
     (case array_index k of
        Some i \<Rightarrow> Inr (if i < length s then Some (JString [s ! i]) else None)
      | None \<Rightarrow> Inr None)"
| "js_get (JNumber n) k = Inr None"
| "js_get (JBool b) k = Inr None"
| "js_get JNull k = Inl TypeError"

text \<open>
  A new own property of an object: integer-like names are enumerated first, in
  ascending order, all other names in order of creation.
\<close>

fun obj_insert :: "string \<Rightarrow> json \<Rightarrow> (string \<times> json) list \<Rightarrow> (string \<times> json) list" where
  "obj_insert k v [] = [(k, v)]"
| "obj_insert k v ((k', v') # kvs) =
     (case array_index k of
        None \<Rightarrow> (k', v') # obj_insert k v kvs
      | Some i \<Rightarrow>
          (case array_index k' of
             None \<Rightarrow> (k, v) # (k', v') # kvs
           | Some i' \<Rightarrow> if i < i' then (k, v) # (k', v') # kvs else (k', v') # obj_insert k v kvs))"

text \<open>
  \<^verbatim>\<open>parent[k] = v\<close> as a write, returning the updated parent. On an object it
  replaces the property or creates it. On an array an index in range replaces the
  element, an index past the end extends the array (the holes serialise as
  \<^verbatim>\<open>null\<close>), any other name creates a property that neither \<^verbatim>\<open>forEach\<close> nor
  \<^verbatim>\<open>JSON.stringify\<close> sees, except \<^verbatim>\<open>length\<close>, which rejects a string that is not
  a number. On a primitive the write throws (module code is strict), as it does on
  \<^verbatim>\<open>null\<close>.
\<close>

fun js_set :: "json \<Rightarrow> string \<Rightarrow> json \<Rightarrow> js_error + json" where
  "js_set (JObject kvs) k v =
     Inr (JObject (if k \<in> fst ` set kvs then AList.update k v kvs else obj_insert k v kvs))"
| "js_set (JArray xs) k v =
     (case array_index k of
        Some i \<Rightarrow> Inr (JArray (if i < length xs then xs[i := v]
                                else xs @ replicate (i - length xs) JNull @ [v]))
      | None \<Rightarrow> if k = ''length'' then Inl RangeError else Inr (JArray xs))"
| "js_set (JString s) k v = Inl TypeError"
| "js_set (JNumber n) k v = Inl TypeError"
| "js_set (JBool b) k v = Inl TypeError"
| "js_set JNull k v = Inl TypeError"

text \<open>
  applyTranslations, the update of the leaf:
  \<^verbatim>\<open>
  let parent = translatedJson;
  for (const p of parentPath) {
    if (p.startsWith('[') && p.endsWith(']')) {
      parent = parent[parseInt(p.slice(1, -1))] as any;
    } else {
      parent = parent[p] as any;
    }
  }
  if (lastKey.startsWith('[') && lastKey.endsWith(']')) {
    parent[parseInt(lastKey.slice(1, -1))] = translatedString;
  } else {
    parent[lastKey] = translatedString;
  }
  \<close>
  The source mutates the object it reached; the model returns the updated tree, putting
  each updated child back where it was read. When a read yields \<^verbatim>\<open>undefined\<close> the
  next access throws, and there always is a next access.
\<close>

fun assign_path :: "json \<Rightarrow> string list \<Rightarrow> string \<Rightarrow> string \<Rightarrow> js_error + json" where
  "assign_path parent [] lastKey translatedString =
     js_set parent (prop_key lastKey) (JString translatedString)"
| "assign_path parent (p # parentPath) lastKey translatedString =
     (case js_get parent (prop_key p) of
        Inl e \<Rightarrow> Inl e
      | Inr None \<Rightarrow> Inl TypeError
      | Inr (Some child) \<Rightarrow>
          (case assign_path child parentPath lastKey translatedString of
             Inl e \<Rightarrow> Inl e
           | Inr child' \<Rightarrow> js_set parent (prop_key p) child'))"

subsection \<open>Locations and flattened paths\<close>

text \<open>
  Where a value sits in its document: the object keys and array indices leading to
  it. The source's \<^verbatim>\<open>path: string[]\<close> is the image of a location under \<open>seg_str\<close>
  (\<^verbatim>\<open>[...path, key]\<close> and \<^verbatim>\<open>[...path, `[${index}]`]\<close>).
\<close>

datatype seg = Key string | Idx nat

fun seg_str :: "seg \<Rightarrow> string" where
  "seg_str (Key k) = k"
| "seg_str (Idx i) = ''['' @ dec_str i @ '']''"

fun child_at :: "json \<Rightarrow> seg \<Rightarrow> json option" where
  "child_at (JObject kvs) (Key k) = map_of kvs k"
| "child_at (JArray xs) (Idx i) = (if i < length xs then Some (xs ! i) else None)"
| "child_at _ _ = None"

fun get_at :: "json \<Rightarrow> seg list \<Rightarrow> json option" where
  "get_at t [] = Some t"
| "get_at t (sg # loc) = (case child_at t sg of None \<Rightarrow> None | Some c \<Rightarrow> get_at c loc)"

definition PATH_SEPARATOR :: char where
  "PATH_SEPARATOR = CHR 0x00"

definition DOT_ESCAPE :: char where
  "DOT_ESCAPE = CHR 0x01"

text \<open>\<^verbatim>\<open>array.join(sep)\<close>\<close>

fun join :: "char \<Rightarrow> string list \<Rightarrow> string" where
  "join sep [] = []"
| "join sep [x] = x"
| "join sep (x # y # ys) = x @ sep # join sep (y # ys)"

text \<open>\<^verbatim>\<open>p.replace(/\./g, DOT_ESCAPE)\<close>\<close>

definition escape_dots :: "string \<Rightarrow> string" where
  "escape_dots p = map (\<lambda>c. if c = CHR ''.'' then DOT_ESCAPE else c) p"

text \<open>\<^verbatim>\<open>path.map(p => p.replace(/\./g, DOT_ESCAPE)).join(PATH_SEPARATOR)\<close>\<close>

definition flat_path :: "string list \<Rightarrow> string" where
  "flat_path path = join PATH_SEPARATOR (map escape_dots path)"

lemma size_obj_member:
  "(k, v) \<in> set kvs \<Longrightarrow> size (v :: json) < Suc (size_list (size_prod f size) kvs)"
  by (induction kvs) auto

text \<open>
  Modelled from the spec: \<^verbatim>\<open>flattenObjectWithPaths\<close> is imported from
  \<^verbatim>\<open>helpers.ts\<close>, which is not among the sources. By section 4.1 it walks the tree
  depth first, object keys in insertion order and array elements in index order, and
  emits the string leaves only; the key under which a leaf is filed is the flattened
  path that applyTranslations rebuilds to query the map. The result is a
  \<^verbatim>\<open>Map\<close>: a second entry for a key replaces the value of the first.
\<close>

function (sequential) flat_entries :: "json \<Rightarrow> string list \<Rightarrow> (string \<times> string) list" where
  "flat_entries (JString s) path = [(flat_path path, s)]"
| "flat_entries (JObject kvs) path =
     concat (map (\<lambda>(key, v). flat_entries v (path @ [key])) kvs)"
| "flat_entries (JArray xs) path =
     concat (map (\<lambda>(index, v). flat_entries v (path @ [''['' @ dec_str index @ '']'']))
                 (zip [0 ..< length xs] xs))"
| "flat_entries _ path = []"
  by pat_completeness auto
termination
proof (relation "measure (\<lambda>(obj, path). size obj)", goal_cases)
  case 1
  show ?case by simp
next
  case (2 kvs path kv key v)
  then show ?case using size_obj_member [of key v kvs] by simp
next
  case (3 xs path iv index v)
  then have "v \<in> set xs" by (auto dest: set_zip_rightD)
  then have "size v < Suc (size_list size xs)"
    by (auto simp: less_Suc_eq_le intro!: size_list_estimation')
  then show ?case by simp
qed

definition flattenObjectWithPaths :: "json \<Rightarrow> (string \<times> string) list" where
  "flattenObjectWithPaths obj =
     fold (\<lambda>(k, v) m. AList.update k v m) (flat_entries obj []) []"

subsection \<open>Rebuilding the translated document\<close>

text \<open>
  applyTranslations at a string leaf; \<open>sourcePathMap\<close>, \<open>translations\<close> and
  \<open>hashString\<close> are the variables of the enclosing function.
  \<^verbatim>\<open>
  const flatPath = path.map(p => p.replace(/\./g, DOT_ESCAPE)).join(PATH_SEPARATOR);
  if (sourcePathMap.has(flatPath)) {
    const sourceString = sourcePathMap.get(flatPath)!;
    const h = hashString(sourceString);
    const translatedString = translations.get(h);
    if (translatedString) {
      const parentPath = path.slice(0, -1);
      const lastKey = path[path.length - 1];
      ...
  \<close>
  With an empty path \<^verbatim>\<open>lastKey\<close> is \<^verbatim>\<open>undefined\<close> and \<^verbatim>\<open>lastKey.startsWith\<close>
  throws.
\<close>

definition leaf_update ::
  "(string \<Rightarrow> string) \<Rightarrow> (string \<times> string) list \<Rightarrow> (string \<rightharpoonup> string) \<Rightarrow>
   json \<Rightarrow> string list \<Rightarrow> js_error + json" where
  "leaf_update hashString sourcePathMap translationMap translatedJson path =
     (case map_of sourcePathMap (flat_path path) of
        None \<Rightarrow> Inr translatedJson
      | Some sourceString \<Rightarrow>
          (case translationMap (hashString sourceString) of
             None \<Rightarrow> Inr translatedJson
           | Some translatedString \<Rightarrow>
               if translatedString = [] then Inr translatedJson
               else if path = [] then Inl TypeError
               else assign_path translatedJson (butlast path) (last path) translatedString))"

text \<open>
  \<^verbatim>\<open>
  function applyTranslations(obj: any, path: string[] = []): void {
    if (typeof obj === 'object' && obj !== null && !Array.isArray(obj)) {
      for (const key in obj) {
        if (Object.prototype.hasOwnProperty.call(obj, key)) {
          applyTranslations(obj[key], [...path, key]);
        }
      }
    } else if (Array.isArray(obj)) {
      obj.forEach((item, index) => {
        applyTranslations(item, [...path, `[${index}]`]);
      });
    } else if (typeof obj === 'string') { ... }
  }
  applyTranslations(translatedJson);
  \<close>
  \<^verbatim>\<open>obj\<close> is a reference into \<^verbatim>\<open>translatedJson\<close>, the tree that the leaf updates
  mutate, so every \<^verbatim>\<open>obj[key]\<close> reads the tree as the updates so far have left it.
  The model threads the tree and names \<^verbatim>\<open>obj\<close> by its location \<open>loc\<close>; a leaf update
  only writes at the depth of the leaf being visited, so the objects under
  enumeration stay where they were. The keys of an object and the length of an array
  are fixed when their enumeration starts. An exception ends the walk. The recursion
  descends one level of the tree per call and is bounded by \<open>fuel\<close>; \<open>None\<close> means
  the fuel ran out.
\<close>

fun applyTranslations ::
  "nat \<Rightarrow> (string \<Rightarrow> string) \<Rightarrow> (string \<times> string) list \<Rightarrow> (string \<rightharpoonup> string) \<Rightarrow>
   json \<Rightarrow> seg list \<Rightarrow> (js_error + json) option" where
  "applyTranslations 0 hashString sourcePathMap translationMap translatedJson loc = None"
| "applyTranslations (Suc fuel) hashString sourcePathMap translationMap translatedJson loc =
     (case get_at translatedJson loc of
        Some (JObject kvs) \<Rightarrow>
          fold (\<lambda>key acc. case acc of
                  Some (Inr cur) \<Rightarrow>
                    applyTranslations fuel hashString sourcePathMap translationMap cur (loc @ [Key key])
                | _ \<Rightarrow> acc)
               (map fst kvs) (Some (Inr translatedJson))
      | Some (JArray xs) \<Rightarrow>
          fold (\<lambda>index acc. case acc of
                  Some (Inr cur) \<Rightarrow>
                    applyTranslations fuel hashString sourcePathMap translationMap cur (loc @ [Idx index])
                | _ \<Rightarrow> acc)
               [0 ..< length xs] (Some (Inr translatedJson))
      | Some (JString s) \<Rightarrow>
          Some (leaf_update hashString sourcePathMap translationMap translatedJson (map seg_str loc))
      | _ \<Rightarrow> Some (Inr translatedJson))"

text \<open>The height of a document, the fuel that the walk over it is given.\<close>

fun depth :: "json \<Rightarrow> nat" where
  "depth (JObject kvs) = Suc (fold max (map (\<lambda>(k, v). depth v) kvs) 0)"
| "depth (JArray xs) = Suc (fold max (map depth xs) 0)"
| "depth _ = 1"

text \<open>
  \<^verbatim>\<open>
  let translatedJson = JSON.parse(JSON.stringify(sourceJson)) as JsonObject;
  ...
  applyTranslations(translatedJson);
  \<close>
\<close>

definition rebuild ::
  "(string \<Rightarrow> string) \<Rightarrow> (string \<times> string) list \<Rightarrow> (string \<rightharpoonup> string) \<Rightarrow> json \<Rightarrow>
   (js_error + json) option" where
  "rebuild hashString sourcePathMap translationMap sourceJson =
     applyTranslations (depth sourceJson) hashString sourcePathMap translationMap sourceJson []"

section \<open>Reconstruction, as specified\<close>

text \<open>
  The value the specification asks for at a leaf whose source string is \<open>s\<close>: the
  mapped value when the mapping has one (the code takes an empty string for none),
  the original otherwise. The mapping is keyed by the fingerprint of the string.
\<close>

definition translated_value :: "(string \<Rightarrow> string) \<Rightarrow> (string \<rightharpoonup> string) \<Rightarrow> string \<Rightarrow> string" where
  "translated_value hash M s = (case M (hash s) of None \<Rightarrow> s | Some t \<Rightarrow> if t = [] then s else t)"

text \<open>The document with every string leaf replaced, and nothing else changed.\<close>

function (sequential) map_strings :: "(string \<Rightarrow> string) \<Rightarrow> json \<Rightarrow> json" where
  "map_strings f (JString s) = JString (f s)"
| "map_strings f (JObject kvs) = JObject (map (\<lambda>(k, v). (k, map_strings f v)) kvs)"
| "map_strings f (JArray xs) = JArray (map (map_strings f) xs)"
| "map_strings f t = t"
  by pat_completeness auto
termination
proof (relation "measure (\<lambda>(f, t). size t)", goal_cases)
  case 1
  show ?case by simp
next
  case (2 f kvs kv k v)
  then show ?case using size_obj_member [of k v kvs] by simp
next
  case (3 f xs x)
  then have "size x < Suc (size_list size xs)"
    by (auto simp: less_Suc_eq_le intro!: size_list_estimation')
  then show ?case by simp
qed

text \<open>No object of the document has a key twice (every parsed document is so).\<close>

function (sequential) distinct_keys :: "json \<Rightarrow> bool" where
  "distinct_keys (JObject kvs) = (distinct (map fst kvs) \<and> list_all (\<lambda>(k, v). distinct_keys v) kvs)"
| "distinct_keys (JArray xs) = list_all distinct_keys xs"
| "distinct_keys t = True"
  by pat_completeness auto
termination
proof (relation "measure size", goal_cases)
  case 1
  show ?case by simp
next
  case (2 kvs kv k v)
  then show ?case using size_obj_member [of k v kvs] by simp
next
  case (3 xs x)
  then have "size x < Suc (size_list size xs)"
    by (auto simp: less_Suc_eq_le intro!: size_list_estimation')
  then show ?case by simp
qed

text \<open>No object key of the document both starts with \<open>[\<close> and ends with \<open>]\<close>.\<close>

function (sequential) plain_keys :: "json \<Rightarrow> bool" where
  "plain_keys (JObject kvs) = list_all (\<lambda>(k, v). \<not> bracketed k \<and> plain_keys v) kvs"
| "plain_keys (JArray xs) = list_all plain_keys xs"
| "plain_keys t = True"
  by pat_completeness auto
termination
proof (relation "measure size", goal_cases)
  case 1
  show ?case by simp
next
  case (2 kvs kv k v)
  then show ?case using size_obj_member [of k v kvs] by simp
next
  case (3 xs x)
  then have "size x < Suc (size_list size xs)"
    by (auto simp: less_Suc_eq_le intro!: size_list_estimation')
  then show ?case by simp
qed

text \<open>Replacing the child, or the value at a location, of a document.\<close>

fun put_child :: "json \<Rightarrow> seg \<Rightarrow> json \<Rightarrow> json" where
  "put_child (JObject kvs) (Key k) c = JObject (AList.update k c kvs)"
| "put_child (JArray xs) (Idx i) c = JArray (xs[i := c])"
| "put_child t sg c = t"

fun put_at :: "json \<Rightarrow> seg list \<Rightarrow> json \<Rightarrow> json" where
  "put_at t [] c = c"
| "put_at t (sg # loc) c =
     (case child_at t sg of None \<Rightarrow> t | Some ch \<Rightarrow> put_child t sg (put_at ch loc c))"

text \<open>A location that passes through no bracket-shaped object key.\<close>

definition plain_loc :: "seg list \<Rightarrow> bool" where
  "plain_loc loc \<longleftrightarrow> (\<forall>k. Key k \<in> set loc \<longrightarrow> \<not> bracketed k)"

section \<open>The environment of the pipeline\<close>

text \<open>
  \<^verbatim>\<open>
  type CacheEntry = { [lang: string]: { [hash: string]: string } };
  type TranslationCache = { [sourceFilePath: string]: CacheEntry };
  \<close>
\<close>

type_synonym LangCache = "string \<rightharpoonup> string"
type_synonym CacheEntry = "string \<rightharpoonup> LangCache"
type_synonym TranslationCache = "string \<rightharpoonup> CacheEntry"

text \<open>
  The functions that index.ts imports from \<^verbatim>\<open>helpers.ts\<close> (not among the sources) and
  from the platform, taken as parameters: the content hash, the format guard
  (\<^verbatim>\<open>preserveFormats(str)\<close> with its \<^verbatim>\<open>.processed\<close> text, and \<^verbatim>\<open>restoreFormats\<close>), key
  sorting, \<^verbatim>\<open>compareKeys(..).isValid\<close>, \<^verbatim>\<open>path.resolve\<close>, \<^verbatim>\<open>path.isAbsolute\<close>,
  \<^verbatim>\<open>path.dirname\<close>, the expansion of an input pattern (\<^verbatim>\<open>glob\<close> or \<^verbatim>\<open>path.resolve\<close>),
  the output path templates, \<^verbatim>\<open>JSON.parse\<close> (\<open>None\<close> when it throws),
  \<^verbatim>\<open>JSON.stringify(cache, null, 2)\<close>, and the metadata header.
\<close>

record 'p helpers =
  hashString :: "string \<Rightarrow> string"
  preserveFormats :: "string \<Rightarrow> 'p"
  processed :: "'p \<Rightarrow> string"
  restoreFormats :: "string \<Rightarrow> 'p \<Rightarrow> string"
  sortObjectKeys :: "json \<Rightarrow> json"
  compareKeysValid :: "json \<Rightarrow> json \<Rightarrow> bool"
  pathResolve :: "string \<Rightarrow> string"
  pathIsAbsolute :: "string \<Rightarrow> bool"
  pathDirname :: "string \<Rightarrow> string"
  expandPattern :: "string \<Rightarrow> string list"
  singleOutputPath :: "string \<Rightarrow> string \<Rightarrow> string"
  multiOutputPath :: "string option \<Rightarrow> string \<Rightarrow> string \<Rightarrow> string"
  jsonParse :: "string \<Rightarrow> json option"
  stringifyCache :: "TranslationCache \<Rightarrow> string"
  addMetadata :: "string \<Rightarrow> string \<Rightarrow> string \<Rightarrow> nat \<Rightarrow> json \<Rightarrow> json"

text \<open>
  The file system as the run finds it. A path is absent, present but closed to the
  process (\<^verbatim>\<open>fs.access\<close> and \<^verbatim>\<open>fs.readFile\<close> reject), a directory, or a readable file
  with its text; besides, the system may refuse to create or to modify a path
  (permissions, a read-only or full medium).
\<close>

datatype file_state = Missing | Unreadable | Directory | Text string

record file_system =
  node :: "string \<Rightarrow> file_state"
  write_denied :: "string \<Rightarrow> bool"

text \<open>
  \<^verbatim>\<open>TranslationProvider\<close> (translators/base.ts). \<open>translate\<close> is \<open>None\<close> when the
  promise rejects; \<^verbatim>\<open>detectLanguage\<close> is optional.
\<close>

record translator =
  translate :: "string list \<Rightarrow> string \<Rightarrow> string \<Rightarrow> string option \<Rightarrow> string list option"
  detectLanguage :: "(string list \<Rightarrow> string) option"

section \<open>Backend responses (translators/base.ts)\<close>

datatype validation_error = CountMismatch nat nat | EmptyTranslation nat

text \<open>\<^verbatim>\<open>!translations[i] || translations[i].trim() === ''\<close>; \<open>None\<close> is a missing value.\<close>

definition blank :: "string option \<Rightarrow> bool" where
  "blank t = (case t of None \<Rightarrow> True | Some s \<Rightarrow> dropWhile is_js_space s = [])"

fun first_blank :: "nat \<Rightarrow> string option list \<Rightarrow> nat option" where
  "first_blank i [] = None"
| "first_blank i (t # ts) = (if blank t then Some i else first_blank (Suc i) ts)"

text \<open>
  \<^verbatim>\<open>
  protected validateResponse(strings: string[], translations: string[]): void {
    if (translations.length !== strings.length) { throw new Error(...); }
    for (let i = 0; i < translations.length; i++) {
      if (!translations[i] || translations[i].trim() === '') { throw new Error(...); }
      ...
  \<close>
  \<open>None\<close> is a normal return, \<open>Some e\<close> the error thrown. The rest of the loop body
  only warns.
\<close>

definition validateResponse :: "string list \<Rightarrow> string option list \<Rightarrow> validation_error option" where
  "validateResponse strings translations =
     (if length translations \<noteq> length strings
      then Some (CountMismatch (length strings) (length translations))
      else map_option EmptyTranslation (first_blank 0 translations))"

text \<open>
  GeminiTranslator.translate: the parsed response of the service (\<open>None\<close> when the
  request or \<^verbatim>\<open>JSON.parse\<close> throws) is validated and returned.
  \<^verbatim>\<open>
  const translations = JSON.parse(responseText);
  this.validateResponse(strings, translations);
  return translations;
  \<close>
\<close>

definition validated_translate ::
  "(string list \<Rightarrow> string \<Rightarrow> string \<Rightarrow> string option \<Rightarrow> string option list option) \<Rightarrow>
   string list \<Rightarrow> string \<Rightarrow> string \<Rightarrow> string option \<Rightarrow> string list option" where
  "validated_translate respond strings targetLang sourceLang ctxt =
     (case respond strings targetLang sourceLang ctxt of
        None \<Rightarrow> None
      | Some translations \<Rightarrow>
          (case validateResponse strings translations of
             Some e \<Rightarrow> None
           | None \<Rightarrow> Some (map (\<lambda>t. case t of None \<Rightarrow> [] | Some s \<Rightarrow> s) translations)))"

section \<open>translateBatch (index.ts)\<close>

text \<open>
  \<^verbatim>\<open>
  try {
    let processedStrings = strings;
    if (shouldPreserveFormats) {
      processedStrings = strings.map(str => { const preserved = preserveFormats(str);
        formatMaps.set(str, preserved); return preserved.processed; });
    }
    const translations = await translator.translate(processedStrings, targetLang, sourceLang, context);
    const translationMap = new Map<string, string>();
    strings.forEach((original, index) => {
      if (translations[index]) {
        let translated = translations[index];
        if (shouldPreserveFormats && formatMaps.has(original)) {
          translated = restoreFormats(translated, formatMaps.get(original)!);
        }
        translationMap.set(original, translated);
      }
    });
    return translationMap;
  } catch (error) { ...; return new Map(); }
  \<close>
  The result is the \<^verbatim>\<open>Map\<close> as its list of entries in insertion order.
\<close>

definition processedStrings :: "'p helpers \<Rightarrow> bool \<Rightarrow> string list \<Rightarrow> string list" where
  "processedStrings H shouldPreserveFormats strings =
     (if shouldPreserveFormats then map (\<lambda>str. processed H (preserveFormats H str)) strings
      else strings)"

definition translateBatch ::
  "'p helpers \<Rightarrow> translator \<Rightarrow> string list \<Rightarrow> string \<Rightarrow> string \<Rightarrow> bool \<Rightarrow> string option \<Rightarrow>
   (string \<times> string) list" where
  "translateBatch H T strings targetLang sourceLang shouldPreserveFormats ctxt =
     (case translate T (processedStrings H shouldPreserveFormats strings) targetLang sourceLang ctxt of
        None \<Rightarrow> []
      | Some translations \<Rightarrow>
          fold (\<lambda>(original, index) translationMap.
                  if index < length translations \<and> translations ! index \<noteq> []
                  then AList.update original
                         (if shouldPreserveFormats
                          then restoreFormats H (translations ! index) (preserveFormats H original)
                          else translations ! index)
                         translationMap
                  else translationMap)
               (zip strings [0 ..< length strings]) [])"

section \<open>The translation cache (index.ts)\<close>

text \<open>
  \<^verbatim>\<open>
  async function loadCache(cacheFilePath: string): Promise<TranslationCache> {
    try {
      await fs.access(cacheFilePath);
      const data = await fs.readFile(cacheFilePath, 'utf-8');
      return JSON.parse(data);
    } catch { return {}; }
  }
  \<close>
  The result is whatever value the file parses to; the declared type is not checked.
\<close>

definition loadCache :: "'p helpers \<Rightarrow> file_system \<Rightarrow> string \<Rightarrow> json" where
  "loadCache H fs cacheFilePath =
     (case node fs cacheFilePath of
        Text data \<Rightarrow> (case jsonParse H data of None \<Rightarrow> JObject [] | Some cache \<Rightarrow> cache)
      | _ \<Rightarrow> JObject [])"

text \<open>
  \<^verbatim>\<open>path.isAbsolute(cacheFile) ? cacheFile : path.resolve(cacheFile)\<close>
\<close>

definition resolvedCacheFile :: "'p helpers \<Rightarrow> string \<Rightarrow> string" where
  "resolvedCacheFile H cacheFile =
     (if pathIsAbsolute H cacheFile then cacheFile else pathResolve H cacheFile)"

subsection \<open>Reading a loaded value\<close>

text \<open>The values that a condition takes for true.\<close>

fun truthy :: "json \<Rightarrow> bool" where
  "truthy (JString s) = (s \<noteq> [])"
| "truthy (JNumber n) = (n \<noteq> 0)"
| "truthy (JBool b) = b"
| "truthy JNull = False"
| "truthy (JArray xs) = True"
| "truthy (JObject kvs) = True"

text \<open>
  \<^verbatim>\<open>const langCache = translationCache[sourceFilePath]?.[lang] || {};\<close> on the loaded
  value: the first read throws when the value is \<^verbatim>\<open>null\<close>; \<^verbatim>\<open>?.\<close> stops at
  \<^verbatim>\<open>null\<close> and \<^verbatim>\<open>undefined\<close>. The result is never \<^verbatim>\<open>null\<close>, so the reads
  \<^verbatim>\<open>langCache[h]\<close> that follow do not throw.
\<close>

definition langCacheRead :: "json \<Rightarrow> string \<Rightarrow> string \<Rightarrow> js_error + json" where
  "langCacheRead translationCache sourceFilePath targetLang =
     (case js_get translationCache sourceFilePath of
        Inl e \<Rightarrow> Inl e
      | Inr None \<Rightarrow> Inr (JObject [])
      | Inr (Some entry) \<Rightarrow>
          if entry = JNull then Inr (JObject [])
          else (case js_get entry targetLang of
                  Inl e \<Rightarrow> Inl e
                | Inr None \<Rightarrow> Inr (JObject [])
                | Inr (Some langCache) \<Rightarrow> Inr (if truthy langCache then langCache else JObject [])))"

text \<open>\<^verbatim>\<open>translationCache[file]?.[lang]?.[hash]\<close> as a condition.\<close>

definition cacheProbe :: "json \<Rightarrow> string \<Rightarrow> string \<Rightarrow> string \<Rightarrow> js_error + bool" where
  "cacheProbe translationCache file targetLang h =
     (case js_get translationCache file of
        Inl e \<Rightarrow> Inl e
      | Inr None \<Rightarrow> Inr False
      | Inr (Some entry) \<Rightarrow>
          if entry = JNull then Inr False
          else (case js_get entry targetLang of
                  Inl e \<Rightarrow> Inl e
                | Inr None \<Rightarrow> Inr False
                | Inr (Some langCache) \<Rightarrow>
                    if langCache = JNull then Inr False
                    else (case js_get langCache h of
                            Inl e \<Rightarrow> Inl e
                          | Inr None \<Rightarrow> Inr False
                          | Inr (Some v) \<Rightarrow> Inr (truthy v))))"

text \<open>
  \<^verbatim>\<open>
  for (const file of files) {
    if (translationCache[file]?.[lang]?.[hash]) { foundInCache = true; break; }
  }
  \<close>
\<close>

fun probeFiles :: "json \<Rightarrow> string \<Rightarrow> string \<Rightarrow> string list \<Rightarrow> js_error + bool" where
  "probeFiles translationCache targetLang h [] = Inr False"
| "probeFiles translationCache targetLang h (file # files) =
     (case cacheProbe translationCache file targetLang h of
        Inl e \<Rightarrow> Inl e
      | Inr found \<Rightarrow> if found then Inr True else probeFiles translationCache targetLang h files)"

subsection \<open>A loaded value of the declared type\<close>

text \<open>
  A value that has the type \<^verbatim>\<open>TranslationCache\<close>: an object of objects of objects of
  strings. On such a value every read and write of the run is a look-up or an update
  of a finite map, and that is how the run is modelled below. \<open>None\<close> is any other
  value.
\<close>

definition asObject :: "(json \<Rightarrow> 'a option) \<Rightarrow> json \<Rightarrow> (string \<rightharpoonup> 'a) option" where
  "asObject decode j =
     (case j of
        JObject kvs \<Rightarrow>
          if list_all (\<lambda>(k, v). decode v \<noteq> None) kvs
          then Some (map_of (map (\<lambda>(k, v). (k, the (decode v))) kvs))
          else None
      | _ \<Rightarrow> None)"

definition asString :: "json \<Rightarrow> string option" where
  "asString j = (case j of JString s \<Rightarrow> Some s | _ \<Rightarrow> None)"

definition asCache :: "json \<Rightarrow> TranslationCache option" where
  "asCache j = asObject (asObject (asObject asString)) j"

text \<open>\<^verbatim>\<open>translationCache[file]?.[lang] || {}\<close>\<close>

definition langCacheOf :: "TranslationCache \<Rightarrow> string \<Rightarrow> string \<Rightarrow> LangCache" where
  "langCacheOf translationCache file lang =
     (case translationCache file of
        None \<Rightarrow> Map.empty
      | Some entry \<Rightarrow> (case entry lang of None \<Rightarrow> Map.empty | Some langCache \<Rightarrow> langCache))"

text \<open>\<^verbatim>\<open>if (langCache[h])\<close>: an entry that is present and not the empty string.\<close>

definition cached :: "LangCache \<Rightarrow> string \<Rightarrow> bool" where
  "cached langCache h = (case langCache h of None \<Rightarrow> False | Some t \<Rightarrow> t \<noteq> [])"

text \<open>
  \<^verbatim>\<open>
  if (!translationCache[file]) translationCache[file] = {};
  if (!translationCache[file][lang]) translationCache[file][lang] = {};
  translationCache[file][lang][h] = translated;
  \<close>
\<close>

definition cacheRecord ::
  "TranslationCache \<Rightarrow> string \<Rightarrow> string \<Rightarrow> string \<Rightarrow> string \<Rightarrow> TranslationCache" where
  "cacheRecord translationCache file lang h translated =
     (let entry = (case translationCache file of None \<Rightarrow> Map.empty | Some e \<Rightarrow> e);
          langCache = (case entry lang of None \<Rightarrow> Map.empty | Some c \<Rightarrow> c)
      in translationCache(file \<mapsto> entry(lang \<mapsto> langCache(h \<mapsto> translated))))"

text \<open>A \<^verbatim>\<open>Set\<close> as the list of its members in insertion order.\<close>

definition set_add :: "'a \<Rightarrow> 'a list \<Rightarrow> 'a list" where
  "set_add x xs = (if x \<in> set xs then xs else xs @ [x])"

definition new_Set :: "'a list \<Rightarrow> 'a list" where
  "new_Set xs = fold set_add xs []"

section \<open>Persisting the cache\<close>

text \<open>
  The system calls behind saveCache, each of which the system may reject (\<open>None\<close>):
  the creation of one directory, the opening of a file for writing (flag \<^verbatim>\<open>'w'\<close>,
  which creates the file or empties it), and the writing of the next piece of data to
  the open file. A directory is created in an existing directory; creating a
  directory that is there already is accepted, as \<^verbatim>\<open>recursive: true\<close> has it; a
  directory cannot be opened for writing.
\<close>

datatype fs_op = Mkdir string | OpenTruncate string | Append string string

definition fs_put :: "file_system \<Rightarrow> string \<Rightarrow> file_state \<Rightarrow> file_system" where
  "fs_put fs path st = fs\<lparr>node := (node fs)(path := st)\<rparr>"

fun fs_step :: "'p helpers \<Rightarrow> file_system \<Rightarrow> fs_op \<Rightarrow> file_system option" where
  "fs_step H fs (Mkdir dir) =
     (case node fs dir of
        Directory \<Rightarrow> Some fs
      | Missing \<Rightarrow>
          if write_denied fs dir \<or> node fs (pathDirname H dir) \<noteq> Directory then None
          else Some (fs_put fs dir Directory)
      | _ \<Rightarrow> None)"
| "fs_step H fs (OpenTruncate path) =
     (case node fs path of
        Directory \<Rightarrow> None
      | Missing \<Rightarrow>
          if write_denied fs path \<or> node fs (pathDirname H path) \<noteq> Directory then None
          else Some (fs_put fs path (Text []))
      | _ \<Rightarrow> if write_denied fs path then None else Some (fs_put fs path (Text [])))"
| "fs_step H fs (Append path chunk) =
     Some (fs_put fs path (Text ((case node fs path of Text old \<Rightarrow> old | _ \<Rightarrow> []) @ chunk)))"

text \<open>
  A sequence of calls, up to the first one that is rejected: the file system reached,
  and whether every call was accepted.
\<close>

fun exec :: "'p helpers \<Rightarrow> fs_op list \<Rightarrow> file_system \<Rightarrow> file_system \<times> bool" where
  "exec H [] fs = (fs, True)"
| "exec H (op # ops) fs =
     (case fs_step H fs op of None \<Rightarrow> (fs, False) | Some fs' \<Rightarrow> exec H ops fs')"

text \<open>
  \<^verbatim>\<open>fs.mkdir(dir, { recursive: true })\<close>: the directories to create, outermost first,
  are \<open>dir\<close> and its ancestors up to the first one that exists. \<^verbatim>\<open>path.dirname\<close>
  returns its argument at a root; the chain from \<open>dir\<close> has at most as many members
  as \<open>dir\<close> has characters, which bounds the recursion.
\<close>

fun mkdirTargets :: "'p helpers \<Rightarrow> file_system \<Rightarrow> nat \<Rightarrow> string \<Rightarrow> string list" where
  "mkdirTargets H fs 0 dir = [dir]"
| "mkdirTargets H fs (Suc n) dir =
     (if node fs (pathDirname H dir) = Missing \<and> pathDirname H dir \<noteq> dir
      then mkdirTargets H fs n (pathDirname H dir) @ [dir]
      else [dir])"

text \<open>
  \<^verbatim>\<open>
  async function ensureCacheDirectory(cacheFilePath: string): Promise<void> {
    const dir = path.dirname(cacheFilePath);
    try { await fs.access(dir); } catch { await fs.mkdir(dir, { recursive: true }); }
  }
  \<close>
\<close>

definition ensureCacheDirectory :: "'p helpers \<Rightarrow> file_system \<Rightarrow> string \<Rightarrow> fs_op list" where
  "ensureCacheDirectory H fs cacheFilePath =
     (let dir = pathDirname H cacheFilePath
      in if node fs dir = Missing \<or> node fs dir = Unreadable
         then map Mkdir (mkdirTargets H fs (length dir) dir)
         else [])"

text \<open>
  \<^verbatim>\<open>
  async function saveCache(cache: TranslationCache, cacheFilePath: string): Promise<void> {
    await ensureCacheDirectory(cacheFilePath);
    await fs.writeFile(cacheFilePath, JSON.stringify(cache, null, 2), 'utf-8');
  }
  \<close>
  saveCache as the calls it issues, in order. \<^verbatim>\<open>fs.writeFile\<close> opens its target and
  writes the data to it piece by piece; how the data is cut into pieces is left to the
  system, so the model takes the finest cut, one character per call, which passes
  through every state that a coarser cut passes through. No other file is involved.
\<close>

definition saveCache :: "'p helpers \<Rightarrow> file_system \<Rightarrow> TranslationCache \<Rightarrow> string \<Rightarrow> fs_op list" where
  "saveCache H fs cache cacheFilePath =
     ensureCacheDirectory H fs cacheFilePath
     @ OpenTruncate cacheFilePath
     # map (\<lambda>c. Append cacheFilePath [c]) (stringifyCache H cache)"

text \<open>
  The file system after the first \<open>n\<close> calls: the whole list for a call of saveCache
  that completes, fewer for one that the end of the process interrupts.
\<close>

definition fs_after :: "'p helpers \<Rightarrow> nat \<Rightarrow> fs_op list \<Rightarrow> file_system \<Rightarrow> file_system" where
  "fs_after H n ops fs = fst (exec H (take n ops) fs)"

text \<open>The promise of saveCache rejects when one of its calls is rejected.\<close>

definition saveCacheRejects :: "'p helpers \<Rightarrow> file_system \<Rightarrow> TranslationCache \<Rightarrow> string \<Rightarrow> bool" where
  "saveCacheRejects H fs cache cacheFilePath \<longleftrightarrow>
     \<not> snd (exec H (saveCache H fs cache cacheFilePath) fs)"

section \<open>Runs\<close>

text \<open>
  The options of a run (the parameters shared by processSingleFile and
  processMultipleFiles; \<^verbatim>\<open>showStats\<close> only prints).
\<close>

record options =
  lang :: string
  outputOpt :: "string option"
  stdout :: bool
  useCache :: bool
  cacheFile :: string
  detectSource :: bool
  dryRun :: bool
  shouldPreserveFormats :: bool
  includeMetadata :: bool
  sortKeys :: bool
  checkKeys :: bool
  translationContext :: "string option"

text \<open>
  What a run does to the world: how it ends (\<open>Exit1\<close> is \<^verbatim>\<open>process.exit(1)\<close>, also
  reached through the handler in \<^verbatim>\<open>main\<close> when an exception escapes), the batches
  handed to translateBatch in dispatch order (each makes one \<^verbatim>\<open>translator.translate\<close>
  call), the calls of \<^verbatim>\<open>translator.detectLanguage\<close>, the cache passed to saveCache if
  it is called, the output files written with their content before serialisation, and
  the documents printed. Progress and statistics output is left out, and the writes
  of the output files are taken to succeed.

  Two values of the status are not ends of a run. \<open>OutOfFuel\<close> says that the bounded
  walk over a document ran out of fuel. \<open>Unmodelled\<close> says that the cache file holds a
  value, other than \<^verbatim>\<open>null\<close>, that does not have the type \<^verbatim>\<open>TranslationCache\<close> and that
  the run goes on to read and update: what the run does to such a value is not
  described here, and nothing is stated about these runs.
\<close>

datatype run_status = Returned | Exit1 | OutOfFuel | Unmodelled

record outcome =
  status :: run_status
  batches :: "string list list"
  detections :: "string list list"
  saved :: "TranslationCache option"
  written :: "(string \<times> json) list"
  printed :: "json list"

definition no_effects :: "run_status \<Rightarrow> outcome" where
  "no_effects st =
     \<lparr>status = st, batches = [], detections = [], saved = None, written = [], printed = []\<rparr>"

text \<open>\<^verbatim>\<open>JSON.parse(await fs.readFile(path, 'utf-8'))\<close>; \<open>None\<close> when either throws.\<close>

definition readDocument :: "'p helpers \<Rightarrow> file_system \<Rightarrow> string \<Rightarrow> json option" where
  "readDocument H fs path =
     (case node fs path of Text data \<Rightarrow> jsonParse H data | _ \<Rightarrow> None)"

subsection \<open>processSingleFile\<close>

text \<open>
  Step 2, with the cache:
  \<^verbatim>\<open>
  allSourceStrings.forEach(str => {
    const h = hashString(str);
    if (langCache[h]) { translations.set(h, langCache[h]); }
    else { stringsToTranslateAPI.add(str); }
  });
  \<close>
\<close>

definition cacheHits :: "'p helpers \<Rightarrow> LangCache \<Rightarrow> string list \<Rightarrow> (string \<rightharpoonup> string)" where
  "cacheHits H langCache allSourceStrings =
     fold (\<lambda>str translationMap.
             if cached langCache (hashString H str)
             then translationMap(hashString H str \<mapsto> the (langCache (hashString H str)))
             else translationMap)
          allSourceStrings Map.empty"

definition cacheMisses :: "'p helpers \<Rightarrow> LangCache \<Rightarrow> string list \<Rightarrow> string list" where
  "cacheMisses H langCache allSourceStrings =
     filter (\<lambda>str. \<not> cached langCache (hashString H str)) allSourceStrings"

text \<open>
  Step 3, merging the batch results:
  \<^verbatim>\<open>
  newTranslations.forEach(batchMap => {
    batchMap.forEach((translated, original) => {
      const h = hashString(original);
      translations.set(h, translated);
      successfullyTranslatedCount++;
      if (useCache) { ... translationCache[sourceFilePath][lang][h] = translated; }
    });
  });
  \<close>
  The state is the translation map, the cache and the count.
\<close>

definition mergeEntry ::
  "'p helpers \<Rightarrow> bool \<Rightarrow> string \<Rightarrow> string \<Rightarrow> string \<times> string \<Rightarrow>
   (string \<rightharpoonup> string) \<times> TranslationCache \<times> nat \<Rightarrow> (string \<rightharpoonup> string) \<times> TranslationCache \<times> nat" where
  "mergeEntry H cacheOn sourceFilePath targetLang entry st =
     (case (entry, st) of
        ((original, translated), (translationMap, translationCache, successfullyTranslatedCount)) \<Rightarrow>
          (translationMap(hashString H original \<mapsto> translated),
           (if cacheOn
            then cacheRecord translationCache sourceFilePath targetLang (hashString H original) translated
            else translationCache),
           Suc successfullyTranslatedCount))"

definition mergeBatches ::
  "'p helpers \<Rightarrow> bool \<Rightarrow> string \<Rightarrow> string \<Rightarrow> (string \<times> string) list list \<Rightarrow>
   (string \<rightharpoonup> string) \<times> TranslationCache \<times> nat \<Rightarrow> (string \<rightharpoonup> string) \<times> TranslationCache \<times> nat" where
  "mergeBatches H cacheOn sourceFilePath targetLang newTranslations st =
     fold (mergeEntry H cacheOn sourceFilePath targetLang) (concat newTranslations) st"

text \<open>
  Step 4:
  \<^verbatim>\<open>
  if (useCache && translationCache[sourceFilePath]?.[lang]) {
    const currentHashes = new Set(Array.from(allSourceStrings).map(hashString));
    for (const h in translationCache[sourceFilePath][lang]) {
      if (!currentHashes.has(h)) { delete translationCache[sourceFilePath][lang][h]; prunedCount++; }
    }
  }
  \<close>
  The result is the cache and the set of entries deleted (\<^verbatim>\<open>prunedCount\<close> is its
  size).
\<close>

definition pruneCache ::
  "'p helpers \<Rightarrow> TranslationCache \<Rightarrow> string \<Rightarrow> string \<Rightarrow> string list \<Rightarrow> TranslationCache \<times> string set" where
  "pruneCache H translationCache sourceFilePath targetLang allSourceStrings =
     (case translationCache sourceFilePath of
        None \<Rightarrow> (translationCache, {})
      | Some entry \<Rightarrow>
          (case entry targetLang of
             None \<Rightarrow> (translationCache, {})
           | Some langCache \<Rightarrow>
               let currentHashes = set (map (hashString H) allSourceStrings)
               in (translationCache(sourceFilePath \<mapsto> entry(targetLang \<mapsto> langCache |` currentHashes)),
                   dom langCache - currentHashes)))"

text \<open>
  Step 1.5:
  \<^verbatim>\<open>
  let sourceLang = 'English';
  if (detectSource && translator.detectLanguage && allSourceStrings.size > 0) {
    sourceLang = await translator.detectLanguage(stringsArray);
  }
  \<close>
  The result is the source language and the detection calls made.
\<close>

definition detectSourceLang ::
  "translator \<Rightarrow> bool \<Rightarrow> string list \<Rightarrow> string \<times> string list list" where
  "detectSourceLang T detect sample =
     (case detectLanguage T of
        Some detectFn \<Rightarrow>
          if detect \<and> sample \<noteq> [] then (detectFn sample, [sample]) else (''English'', [])
      | None \<Rightarrow> (''English'', []))"

text \<open>
  Steps 6 and later for one document: rebuild, then the optional sorting and metadata.
  \<^verbatim>\<open>
  applyTranslations(translatedJson);
  if (sortKeys) { translatedJson = sortObjectKeys(translatedJson) as JsonObject; }
  let outputJson = translatedJson;
  if (includeMetadata) { outputJson = { "_translator_metadata": {...}, ...translatedJson }; }
  \<close>
\<close>

definition finishDocument ::
  "'p helpers \<Rightarrow> options \<Rightarrow> string \<Rightarrow> string \<Rightarrow> nat \<Rightarrow> json \<Rightarrow> json" where
  "finishDocument H opts sourceLang file totalStrings translatedJson =
     (let sorted = (if sortKeys opts then sortObjectKeys H translatedJson else translatedJson)
      in if includeMetadata opts
         then addMetadata H (if detectSource opts then sourceLang else ''English'') (lang opts)
                file totalStrings sorted
         else sorted)"

text \<open>
  Steps 2 to 5 of processSingleFile on a cache of the declared type
  (\<open>translationCache0\<close>, the loaded cache, or \<^verbatim>\<open>{}\<close> when the cache is off): the split
  into cache hits and misses, the batches and their translation, the merge, pruning
  and the decision to save.
  \<^verbatim>\<open>
  if (useCache) { translationCache = await loadCache(resolvedCacheFile); ... }
  else { stringsToTranslateAPI = allSourceStrings; }
  if (stringsToTranslateAPI.size > 0) { ... batches ... Promise.all ... merge ... }
  ... prune ...
  if (useCache && (successfullyTranslatedCount > 0 || prunedCount > 0)) {
    await saveCache(translationCache, resolvedCacheFile);
  }
  \<close>
  The result is the translation map, the cache handed to saveCache if it is called,
  and the batches.
\<close>

definition singleFileTranslate ::
  "'p helpers \<Rightarrow> translator \<Rightarrow> options \<Rightarrow> TranslationCache \<Rightarrow> string \<Rightarrow> string \<Rightarrow>
   string list \<Rightarrow> (string \<rightharpoonup> string) \<times> TranslationCache option \<times> string list list" where
  "singleFileTranslate H T opts translationCache0 sourceFilePath sourceLang allSourceStrings =
     (let langCache = langCacheOf translationCache0 sourceFilePath (lang opts);
          translations0 =
            (if useCache opts then cacheHits H langCache allSourceStrings else Map.empty);
          stringsToTranslateAPI =
            (if useCache opts then cacheMisses H langCache allSourceStrings
             else allSourceStrings);
          batchList = single_file_batches stringsToTranslateAPI;
          newTranslations =
            map (\<lambda>batch. translateBatch H T batch (lang opts) sourceLang
                            (shouldPreserveFormats opts) (translationContext opts))
                batchList;
          (translationMap, translationCache1, successfullyTranslatedCount) =
            mergeBatches H (useCache opts) sourceFilePath (lang opts) newTranslations
              (translations0, translationCache0, 0);
          (translationCache2, pruned) =
            (if useCache opts
             then pruneCache H translationCache1 sourceFilePath (lang opts) allSourceStrings
             else (translationCache1, {}))
      in (translationMap,
          (if useCache opts \<and> (0 < successfullyTranslatedCount \<or> pruned \<noteq> {})
           then Some translationCache2 else None),
          batchList))"

text \<open>
  processSingleFile. A source file that cannot be read or parsed exits. With the
  cache on, the cache file is loaded and \<^verbatim>\<open>translationCache[sourceFilePath]\<close> is read,
  in the dry-run branch as in step 2; the read throws when the file holds \<^verbatim>\<open>null\<close>.
  The dry-run branch then only prints counts and returns. Otherwise steps 2 to 5
  follow; \<^verbatim>\<open>await saveCache(..)\<close> is not guarded, so a rejected save ends the run
  before the rebuild. After the rebuild, the document is printed (\<^verbatim>\<open>--stdout\<close>) or
  written to \<^verbatim>\<open>output.replace(/\{lang\}/g, lang)\<close>, and a failed key check exits.
\<close>

definition processSingleFile ::
  "'p helpers \<Rightarrow> translator \<Rightarrow> file_system \<Rightarrow> string \<Rightarrow> options \<Rightarrow> outcome" where
  "processSingleFile H T fs inputFile opts =
     (let sourceFilePath = pathResolve H inputFile in
      case readDocument H fs sourceFilePath of
        None \<Rightarrow> no_effects Exit1
      | Some sourceJson \<Rightarrow>
          let sourcePathMap = flattenObjectWithPaths sourceJson;
              allSourceStrings = new_Set (map snd sourcePathMap);
              (sourceLang, detectCalls) = detectSourceLang T (detectSource opts) allSourceStrings;
              cacheFilePath = resolvedCacheFile H (cacheFile opts);
              loaded = (if useCache opts then loadCache H fs cacheFilePath else JObject []);
              start = (no_effects Returned)\<lparr>detections := detectCalls\<rparr>
          in case langCacheRead loaded sourceFilePath (lang opts) of
               Inl e \<Rightarrow> start\<lparr>status := Exit1\<rparr>
             | Inr langCache \<Rightarrow>
                 if dryRun opts then start
                 else
                   (case asCache loaded of
                      None \<Rightarrow> start\<lparr>status := Unmodelled\<rparr>
                    | Some translationCache0 \<Rightarrow>
                        let (translationMap, cacheSaved, batchList) =
                              singleFileTranslate H T opts translationCache0 sourceFilePath
                                sourceLang allSourceStrings;
                            sofar = \<lparr>status = Returned, batches = batchList,
                                     detections = detectCalls, saved = cacheSaved,
                                     written = [], printed = []\<rparr>
                        in if (case cacheSaved of
                                 None \<Rightarrow> False
                               | Some cache \<Rightarrow> saveCacheRejects H fs cache cacheFilePath)
                           then sofar\<lparr>status := Exit1\<rparr>
                           else
                             (case rebuild (hashString H) sourcePathMap translationMap sourceJson of
                                None \<Rightarrow> sofar\<lparr>status := OutOfFuel\<rparr>
                              | Some (Inl e) \<Rightarrow> sofar\<lparr>status := Exit1\<rparr>
                              | Some (Inr translatedJson) \<Rightarrow>
                                  let outputJson = finishDocument H opts sourceLang inputFile
                                                     (length sourcePathMap) translatedJson
                                  in sofar\<lparr>status := (if checkKeys opts
                                                         \<and> \<not> compareKeysValid H sourceJson outputJson
                                                      then Exit1 else Returned),
                                            written := (case outputOpt opts of
                                                          Some out \<Rightarrow>
                                                            if stdout opts then []
                                                            else [(singleOutputPath H out (lang opts), outputJson)]
                                                        | None \<Rightarrow> []),
                                            printed := (if stdout opts then [outputJson] else [])\<rparr>)))"

subsection \<open>processMultipleFiles\<close>

text \<open>
  Step 2, the strings of one file:
  \<^verbatim>\<open>
  for (const str of pathMap.values()) {
    if (!globalStringMap.has(str)) { globalStringMap.set(str, new Set()); }
    globalStringMap.get(str)!.add(filePath);
  }
  \<close>
  \<^verbatim>\<open>globalStringMap\<close> is the list of its entries in insertion order.
\<close>

definition addString ::
  "string \<Rightarrow> string \<Rightarrow> (string \<times> string list) list \<Rightarrow> (string \<times> string list) list" where
  "addString filePath str globalStringMap =
     (case map_of globalStringMap str of
        None \<Rightarrow> globalStringMap @ [(str, [filePath])]
      | Some files \<Rightarrow> AList.update str (set_add filePath files) globalStringMap)"

text \<open>\<^verbatim>\<open>globalStringMap.get(str)?.has(filePath)\<close>: the file is listed for the string.\<close>

definition listed :: "(string \<times> string list) list \<Rightarrow> string \<Rightarrow> string \<Rightarrow> bool" where
  "listed globalStringMap str filePath =
     (case map_of globalStringMap str of None \<Rightarrow> False | Some files \<Rightarrow> filePath \<in> set files)"

text \<open>
  Step 2, one file: a file that cannot be read or parsed is reported and skipped.
  The state is \<^verbatim>\<open>fileDataMap\<close> (file path, document, path map, output path) and
  \<^verbatim>\<open>globalStringMap\<close>.
\<close>

definition collectFile ::
  "'p helpers \<Rightarrow> file_system \<Rightarrow> options \<Rightarrow> string \<Rightarrow>
   (string \<times> json \<times> (string \<times> string) list \<times> string) list \<times> (string \<times> string list) list \<Rightarrow>
   (string \<times> json \<times> (string \<times> string) list \<times> string) list \<times> (string \<times> string list) list" where
  "collectFile H fs opts filePath st =
     (case st of (fileDataMap, globalStringMap) \<Rightarrow>
        (case readDocument H fs filePath of
           None \<Rightarrow> (fileDataMap, globalStringMap)
         | Some sourceJson \<Rightarrow>
             let pathMap = flattenObjectWithPaths sourceJson;
                 outputPath = (if stdout opts then ''stdout''
                               else multiOutputPath H (outputOpt opts) filePath (lang opts))
             in (fileDataMap @ [(filePath, sourceJson, pathMap, outputPath)],
                 fold (addString filePath) (map snd pathMap) globalStringMap)))"

text \<open>
  Step 3, with the cache:
  \<^verbatim>\<open>
  for (const [str, files] of globalStringMap) {
    const hash = hashString(str);
    let foundInCache = false;
    for (const file of files) {
      if (translationCache[file]?.[lang]?.[hash]) {
        globalTranslations.set(hash, translationCache[file][lang][hash]);
        foundInCache = true; break;
      }
    }
    if (!foundInCache) { stringsToTranslate.add(str); }
  }
  \<close>
\<close>

definition foundIn :: "TranslationCache \<Rightarrow> string \<Rightarrow> string \<Rightarrow> string list \<Rightarrow> string option" where
  "foundIn translationCache targetLang h files =
     (case filter (\<lambda>file. cached (langCacheOf translationCache file targetLang) h) files of
        [] \<Rightarrow> None
      | file # _ \<Rightarrow> langCacheOf translationCache file targetLang h)"

definition globalHits ::
  "'p helpers \<Rightarrow> TranslationCache \<Rightarrow> string \<Rightarrow> (string \<times> string list) list \<Rightarrow> (string \<rightharpoonup> string)" where
  "globalHits H translationCache targetLang globalStringMap =
     fold (\<lambda>(str, files) globalTranslations.
             case foundIn translationCache targetLang (hashString H str) files of
               None \<Rightarrow> globalTranslations
             | Some t \<Rightarrow> globalTranslations(hashString H str \<mapsto> t))
          globalStringMap Map.empty"

definition globalMisses ::
  "'p helpers \<Rightarrow> TranslationCache \<Rightarrow> string \<Rightarrow> (string \<times> string list) list \<Rightarrow> string list" where
  "globalMisses H translationCache targetLang globalStringMap =
     map fst (filter (\<lambda>(str, files).
                        foundIn translationCache targetLang (hashString H str) files = None)
                     globalStringMap)"

text \<open>
  Step 4, merging one batch after the other:
  \<^verbatim>\<open>
  batchTranslations.forEach((translated, original) => {
    const hash = hashString(original);
    globalTranslations.set(hash, translated);
  });
  \<close>
\<close>

definition mergeGlobal ::
  "'p helpers \<Rightarrow> (string \<times> string) list list \<Rightarrow> (string \<rightharpoonup> string) \<Rightarrow> (string \<rightharpoonup> string)" where
  "mergeGlobal H batchResults globalTranslations =
     fold (\<lambda>(original, translated) m. m(hashString H original \<mapsto> translated))
          (concat batchResults) globalTranslations"

text \<open>
  Step 5:
  \<^verbatim>\<open>
  for (const [str, files] of globalStringMap) {
    const hash = hashString(str);
    if (globalTranslations.has(hash)) {
      const translation = globalTranslations.get(hash)!;
      for (const file of files) { ... translationCache[file][lang][hash] = translation; }
    }
  }
  \<close>
\<close>

definition updateCache ::
  "'p helpers \<Rightarrow> string \<Rightarrow> (string \<rightharpoonup> string) \<Rightarrow> (string \<times> string list) list \<Rightarrow>
   TranslationCache \<Rightarrow> TranslationCache" where
  "updateCache H targetLang globalTranslations globalStringMap translationCache =
     fold (\<lambda>(str, files) cache.
             case globalTranslations (hashString H str) of
               None \<Rightarrow> cache
             | Some translation \<Rightarrow>
                 fold (\<lambda>file c. cacheRecord c file targetLang (hashString H str) translation)
                      files cache)
          globalStringMap translationCache"

text \<open>
  Step 6, over \<^verbatim>\<open>fileDataMap\<close>: each document is rebuilt and printed or written; an
  exception ends the run with the files written so far. The result is the status,
  the files written and the documents printed, and the pairs of source and output
  document for the key check of step 7.
\<close>

fun writeFiles ::
  "'p helpers \<Rightarrow> options \<Rightarrow> string \<Rightarrow> (string \<rightharpoonup> string) \<Rightarrow>
   (string \<times> json \<times> (string \<times> string) list \<times> string) list \<Rightarrow>
   run_status \<times> (string \<times> json) list \<times> json list \<times> (json \<times> json) list" where
  "writeFiles H opts sourceLang globalTranslations [] = (Returned, [], [], [])"
| "writeFiles H opts sourceLang globalTranslations ((filePath, sourceJson, paths, outputPath) # rest) =
     (case rebuild (hashString H) paths globalTranslations sourceJson of
        None \<Rightarrow> (OutOfFuel, [], [], [])
      | Some (Inl e) \<Rightarrow> (Exit1, [], [], [])
      | Some (Inr translatedJson) \<Rightarrow>
          let outputJson = finishDocument H opts sourceLang filePath (length paths) translatedJson;
              (st, ws, ps, cs) = writeFiles H opts sourceLang globalTranslations rest
          in (st,
              (if stdout opts then ws else (outputPath, outputJson) # ws),
              (if stdout opts then outputJson # ps else ps),
              (sourceJson, outputJson) # cs))"

text \<open>
  Steps 3 to 5 of processMultipleFiles on a cache of the declared type: the split
  into cache hits and misses, the batches translated one after the other, the merge,
  and the cache update that is saved when there was something to translate. The result is
  \<^verbatim>\<open>globalTranslations\<close>, the cache handed to saveCache if it is called, and the
  batches.
\<close>

definition multiFileTranslate ::
  "'p helpers \<Rightarrow> translator \<Rightarrow> options \<Rightarrow> TranslationCache \<Rightarrow> string \<Rightarrow>
   (string \<times> string list) list \<Rightarrow> (string \<rightharpoonup> string) \<times> TranslationCache option \<times> string list list" where
  "multiFileTranslate H T opts translationCache0 sourceLang globalStringMap =
     (let globalTranslations0 =
            (if useCache opts then globalHits H translationCache0 (lang opts) globalStringMap
             else Map.empty);
          stringsToTranslate =
            (if useCache opts then globalMisses H translationCache0 (lang opts) globalStringMap
             else map fst globalStringMap);
          batchList = multi_file_batches stringsToTranslate;
          batchResults =
            map (\<lambda>batchStrings. translateBatch H T batchStrings (lang opts) sourceLang
                                    (shouldPreserveFormats opts) (translationContext opts))
                batchList;
          globalTranslations = mergeGlobal H batchResults globalTranslations0
      in (globalTranslations,
          (if useCache opts \<and> stringsToTranslate \<noteq> []
           then Some (updateCache H (lang opts) globalTranslations globalStringMap translationCache0)
           else None),
          batchList))"

text \<open>
  With the cache on, the dry-run branch and step 3 both evaluate
  \<^verbatim>\<open>translationCache[file]?.[lang]?.[hash]\<close> for the strings of \<^verbatim>\<open>globalStringMap\<close> and
  their files; nothing happens in between, so what matters is whether one of the
  reads throws.
\<close>

definition probesThrow ::
  "'p helpers \<Rightarrow> json \<Rightarrow> string \<Rightarrow> (string \<times> string list) list \<Rightarrow> bool" where
  "probesThrow H translationCache targetLang globalStringMap =
     list_ex (\<lambda>(str, files). isl (probeFiles translationCache targetLang (hashString H str) files))
       globalStringMap"

text \<open>
  processMultipleFiles. No file to process exits. With the cache on, the cache file
  is loaded and probed; a read of \<^verbatim>\<open>null\<close> throws. The dry-run branch then only
  prints counts and returns. Otherwise steps 3 to 5 follow (with no string at all
  they never touch the loaded value); \<^verbatim>\<open>await saveCache(..)\<close> is not guarded, so a
  rejected save ends the run before any output is written. Step 7 reads the written
  files back and exits if a key check fails.
\<close>

definition processMultipleFiles ::
  "'p helpers \<Rightarrow> translator \<Rightarrow> file_system \<Rightarrow> string list \<Rightarrow> options \<Rightarrow> outcome" where
  "processMultipleFiles H T fs inputPatterns opts =
     (let uniqueFiles = new_Set (concat (map (expandPattern H) inputPatterns)) in
      if uniqueFiles = [] then no_effects Exit1
      else
        let (fileDataMap, globalStringMap) = fold (collectFile H fs opts) uniqueFiles ([], []);
            (sourceLang, detectCalls) =
              detectSourceLang T (detectSource opts) (take 10 (map fst globalStringMap));
            cacheFilePath = resolvedCacheFile H (cacheFile opts);
            loaded = (if useCache opts then loadCache H fs cacheFilePath else JObject []);
            start = (no_effects Returned)\<lparr>detections := detectCalls\<rparr>
        in if probesThrow H loaded (lang opts) globalStringMap then start\<lparr>status := Exit1\<rparr>
           else if dryRun opts then start
           else
             (case (if globalStringMap = [] then Some Map.empty else asCache loaded) of
                None \<Rightarrow> start\<lparr>status := Unmodelled\<rparr>
              | Some translationCache0 \<Rightarrow>
                  let (globalTranslations, cacheSaved, batchList) =
                        multiFileTranslate H T opts translationCache0 sourceLang globalStringMap;
                      sofar = \<lparr>status = Returned, batches = batchList, detections = detectCalls,
                               saved = cacheSaved, written = [], printed = []\<rparr>
                  in if (case cacheSaved of
                           None \<Rightarrow> False
                         | Some cache \<Rightarrow> saveCacheRejects H fs cache cacheFilePath)
                     then sofar\<lparr>status := Exit1\<rparr>
                     else
                       let (st, ws, ps, cs) =
                             writeFiles H opts sourceLang globalTranslations fileDataMap
                       in sofar\<lparr>status := (if st = Returned \<and> checkKeys opts \<and> \<not> stdout opts
                                              \<and> \<not> list_all (\<lambda>(src, out). compareKeysValid H src out) cs
                                           then Exit1 else st),
                                 written := ws, printed := ps\<rparr>))"

section \<open>Example inputs\<close>

text \<open>
  A small environment for evaluating the definitions: the hash prefixes \<open>#\<close>, the
  format guard protects nothing, paths are taken as given and every path lies in the
  directory \<open>.\<close>, a cache serialises to the text \<open>cache-1\<close>, and the backend prefixes
  every string with \<open>es:\<close>. The file system holds four documents and a cache with
  one entry in use and one stale entry for the first document and one entry for the
  last; nothing is write-protected. A second backend answers every request with one
  translation too few and validates its answer as GeminiTranslator does.
\<close>

definition docA :: json where
  "docA = JObject [(''x'', JString ''Save'')]"

definition docB :: json where
  "docB = JObject [(''y'', JString ''Save''), (''z'', JString ''Open'')]"

definition docC :: json where
  "docC = JObject [(''[0]'', JString ''Hello''), (''a'', JString ''Hello'')]"

definition docD :: json where
  "docD = JObject [(''0'', JString ''Hello''), (''[0]'', JString ''Bye'')]"

definition exCacheJson :: json where
  "exCacheJson =
     JObject [(''a.json'', JObject [(''es'', JObject [(''#Save'', JString ''Guardar''),
                                                      (''#Old'', JString ''Viejo'')])]),
              (''d.json'', JObject [(''es'', JObject [(''#Bye'', JString ''Adios'')])])]"

definition exCache :: TranslationCache where
  "exCache = [''d.json'' \<mapsto> [''es'' \<mapsto> [''#Bye'' \<mapsto> ''Adios'']],
              ''a.json'' \<mapsto> [''es'' \<mapsto> [''#Old'' \<mapsto> ''Viejo'', ''#Save'' \<mapsto> ''Guardar'']]]"

definition exHelpers :: "string helpers" where
  "exHelpers =
     \<lparr>hashString = (\<lambda>s. CHR ''#'' # s),
      preserveFormats = (\<lambda>s. s),
      processed = (\<lambda>p. p),
      restoreFormats = (\<lambda>t p. t),
      sortObjectKeys = (\<lambda>j. j),
      compareKeysValid = (\<lambda>a b. True),
      pathResolve = (\<lambda>p. p),
      pathIsAbsolute = (\<lambda>p. False),
      pathDirname = (\<lambda>p. ''.''),
      expandPattern = (\<lambda>p. [p]),
      singleOutputPath = (\<lambda>out l. out),
      multiOutputPath = (\<lambda>out file l. file @ CHR ''.'' # l),
      jsonParse = (\<lambda>s. if s = ''doc-a'' then Some docA
                         else if s = ''doc-b'' then Some docB
                         else if s = ''doc-c'' then Some docC
                         else if s = ''doc-d'' then Some docD
                         else if s = ''cache-0'' then Some exCacheJson
                         else if s = ''null'' then Some JNull else None),
      stringifyCache = (\<lambda>c. ''cache-1''),
      addMetadata = (\<lambda>sourceLang targetLang file n j. j)\<rparr>"

definition exTranslator :: translator where
  "exTranslator =
     \<lparr>translate = (\<lambda>strings targetLang sourceLang ctxt. Some (map (\<lambda>s. ''es:'' @ s) strings)),
      detectLanguage = None\<rparr>"

definition exShortTranslator :: translator where
  "exShortTranslator =
     \<lparr>translate = validated_translate
                    (\<lambda>strings targetLang sourceLang ctxt. Some (map Some (butlast strings))),
      detectLanguage = None\<rparr>"

definition exFs :: file_system where
  "exFs =
     \<lparr>node = (\<lambda>p. if p = ''a.json'' then Text ''doc-a''
                  else if p = ''b.json'' then Text ''doc-b''
                  else if p = ''c.json'' then Text ''doc-c''
                  else if p = ''d.json'' then Text ''doc-d''
                  else if p = ''cache.json'' then Text ''cache-0''
                  else if p = ''.'' then Directory
                  else Missing),
      write_denied = (\<lambda>p. False)\<rparr>"

definition exOptions :: options where
  "exOptions =
     \<lparr>lang = ''es'', outputOpt = Some ''out.json'', stdout = False, useCache = True,
      cacheFile = ''cache.json'', detectSource = False, dryRun = False,
      shouldPreserveFormats = False, includeMetadata = False, sortKeys = False,
      checkKeys = False, translationContext = None\<rparr>"

section \<open>Properties of the batch scheduler\<close>

lemma ceil_div_unique:
  assumes "0 < b" "(k - 1) * b < a" "a \<le> k * b" "0 < k"
  shows "ceil_div a b = k"
proof -
  obtain j where k: "k = Suc j" using assms(4) by (cases k) auto
  have 1: "b * k \<le> a + b - 1" using assms(1,2) by (simp add: k algebra_simps)
  have 2: "a + b - 1 < b * Suc k" using assms(1,3) by (simp add: algebra_simps)
  show ?thesis unfolding ceil_div_def using 1 2 by (rule div_nat_eqI)
qed

lemma ceil_div_upper: 
  assumes "0 < b" shows "a \<le> ceil_div a b * b"
proof -
  have "a + b - 1 = (a + b - 1) div b * b + (a + b - 1) mod b" by simp
  moreover have "(a + b - 1) mod b < b" using assms by simp
  ultimately show ?thesis unfolding ceil_div_def by linarith
qed

lemma ceil_div_lower:
  assumes "0 < b" "0 < a" shows "(ceil_div a b - 1) * b < a"
proof -
  have "(a + b - 1) div b * b \<le> a + b - 1" by simp
  then have "ceil_div a b * b \<le> a + b - 1" by (simp add: ceil_div_def)
  moreover have "(ceil_div a b - 1) * b = ceil_div a b * b - b" by (simp add: algebra_simps)
  ultimately show ?thesis using assms by linarith
qed

lemma ceil_div_pos: "0 < a \<Longrightarrow> 0 < b \<Longrightarrow> 0 < ceil_div a b"
  using ceil_div_upper [of b a] by (cases "ceil_div a b") auto

lemma ceil_div_step: assumes "0 < b" "b < a" shows "ceil_div a b = Suc (ceil_div (a - b) b)"
proof -
  have 1: "a + b - 1 = (a - 1) + b" using assms by linarith
  have 2: "a - b + b - 1 = a - 1" using assms by linarith
  have "(a + b - 1) div b = (a - 1 + b) div b" by (simp only: 1)
  also have "\<dots> = (a - 1) div b + 1" by (rule div_add_self2) (use assms in simp)
  also have "\<dots> = Suc ((a - 1) div b)" by (rule Suc_eq_plus1 [symmetric])
  also have "\<dots> = Suc ((a - b + b - 1) div b)" by (simp only: 2)
  finally show ?thesis by (simp only: ceil_div_def)
qed

lemma ceil_div_small: "0 < a \<Longrightarrow> a \<le> b \<Longrightarrow> ceil_div a b = 1"
  by (rule ceil_div_unique) auto

lemma numBatches_pos: "0 < n \<Longrightarrow> 0 < numBatches n"
  by (simp add: numBatches_def ceil_div_pos MAX_BATCH_SIZE_def)

lemma dynamicBatchSize_pos: "0 < n \<Longrightarrow> 0 < dynamicBatchSize n"
  by (simp add: dynamicBatchSize_def ceil_div_pos numBatches_pos)

lemma dynamicBatchSize_le: assumes "0 < n" shows "dynamicBatchSize n \<le> MAX_BATCH_SIZE"
proof -
  let ?k = "numBatches n"
  have k: "0 < ?k" using assms by (rule numBatches_pos)
  have "n \<le> ?k * MAX_BATCH_SIZE" unfolding numBatches_def by (rule ceil_div_upper) (simp add: MAX_BATCH_SIZE_def)
  then have "n + ?k - 1 < Suc MAX_BATCH_SIZE * ?k" using k by (simp add: mult.commute)
  then have "(n + ?k - 1) div ?k < Suc MAX_BATCH_SIZE"
    by (rule less_mult_imp_div_less)
  then show ?thesis by (simp add: dynamicBatchSize_def ceil_div_def)
qed

lemma batch_count: assumes "0 < n" shows "ceil_div n (dynamicBatchSize n) = numBatches n"
proof (rule ceil_div_unique)
  let ?k = "numBatches n" and ?s = "dynamicBatchSize n"
  show "0 < ?s" using assms by (rule dynamicBatchSize_pos)
  show "0 < ?k" using assms by (rule numBatches_pos)
  show "n \<le> ?k * ?s" unfolding dynamicBatchSize_def
    using ceil_div_upper [OF numBatches_pos [OF assms], of n] by (simp add: mult.commute)
  have "(?k - 1) * ?s \<le> (?k - 1) * MAX_BATCH_SIZE"
    using dynamicBatchSize_le [OF assms] by simp
  also have "\<dots> < n" unfolding numBatches_def
    by (rule ceil_div_lower) (use assms in \<open>simp_all add: MAX_BATCH_SIZE_def\<close>)
  finally show "(?k - 1) * ?s < n" .
qed

lemma batch_loop_length: "0 < step \<Longrightarrow> length (batch_loop xs step i) = ceil_div (length xs - i) step"
proof (induction xs step i rule: batch_loop.induct)
  case (1 xs step i)
  show ?case
  proof (cases "i < length xs")
    case True
    show ?thesis
    proof (cases "step < length xs - i")
      case True
      then have "ceil_div (length xs - i) step = Suc (ceil_div (length xs - (i + step)) step)"
        using 1(2) ceil_div_step [of step "length xs - i"] by simp
      then show ?thesis using 1 True by (subst batch_loop.simps) simp
    next
      case False
      then have a: "ceil_div (length xs - i) step = 1" using True by (intro ceil_div_small) auto
      have "\<not> i + step < length xs" using False by linarith
      then have "batch_loop xs step (i + step) = []" by (subst batch_loop.simps) simp
      then show ?thesis using a True 1(2) by (subst batch_loop.simps) simp
    qed
  next
    case False
    then show ?thesis using 1(2) by (subst batch_loop.simps) (simp add: ceil_div_def)
  qed
qed

lemma batch_loop_nth:
  "0 < step \<Longrightarrow> j < length (batch_loop xs step i) \<Longrightarrow>
   batch_loop xs step i ! j = slice xs (i + j * step) (i + Suc j * step)"
proof (induction xs step i arbitrary: j rule: batch_loop.induct)
  case (1 xs step i)
  from 1(3) have lt: "i < length xs" by (subst (asm) batch_loop.simps) (auto split: if_splits)
  show ?case
  proof (cases j)
    case 0
    then show ?thesis using lt 1(2) by (subst batch_loop.simps) simp
  next
    case (Suc m)
    have "m < length (batch_loop xs step (i + step))"
      using 1(3) lt 1(2) Suc by (subst (asm) batch_loop.simps) simp
    then have "batch_loop xs step (i + step) ! m = slice xs (i + step + m * step) (i + step + Suc m * step)"
      using 1(1) lt 1(2) by simp
    then show ?thesis using lt 1(2) Suc by (subst batch_loop.simps) (simp add: add.assoc)
  qed
qed

lemma batch_loop_concat: "0 < step \<Longrightarrow> concat (batch_loop xs step i) = drop i xs"
proof (induction xs step i rule: batch_loop.induct)
  case (1 xs step i)
  show ?case
  proof (cases "i < length xs")
    case True
    have "take step (drop i xs) @ drop (i + step) xs = drop i xs"
      by (metis append_take_drop_id drop_drop add.commute)
    then show ?thesis using 1 True by (subst batch_loop.simps) (simp add: slice_def)
  next
    case False
    then show ?thesis by (subst batch_loop.simps) simp
  qed
qed

lemma multi_file_batches_250:
  "map length (multi_file_batches [0 ..< 250 :: nat]) = [100, 100, 50]"
  by code_simp

text \<open>
  Claim C2, as stated, at 250 cache-miss strings: the single-file path cuts them into
  batches of 84, 84 and 82 strings (not 84, 83, 83), and the multi-file path into
  100, 100 and 50.
\<close>

theorem C2_batches_250_counterexample:
  "map length (single_file_batches [0 ..< 250 :: nat]) = [84, 84, 82]
   \<and> map length (single_file_batches [0 ..< 250 :: nat]) \<noteq> [84, 83, 83]
   \<and> map length (multi_file_batches [0 ..< 250 :: nat]) = [100, 100, 50]"
  by code_simp

text \<open>
  Claim C2, amended: for \<open>N \<ge> 1\<close> cache-miss strings the single-file path
  (processSingleFile) creates \<open>ceil(N / 100)\<close> batches that partition the strings in
  order; every batch but the last holds \<open>ceil(N / ceil(N / 100))\<close> strings, the last
  holds the remaining ones, at least one and at most that many, and no batch exceeds
  100 strings.
\<close>

theorem C2_single_file_batches_shape:
  assumes "stringsArray \<noteq> []"
  defines "n \<equiv> length stringsArray"
  defines "bs \<equiv> single_file_batches stringsArray"
  shows "length bs = numBatches n
       \<and> concat bs = stringsArray
       \<and> (\<forall>j < numBatches n - 1. length (bs ! j) = dynamicBatchSize n)
       \<and> length (bs ! (numBatches n - 1)) = n - (numBatches n - 1) * dynamicBatchSize n
       \<and> 0 < length (bs ! (numBatches n - 1))
       \<and> length (bs ! (numBatches n - 1)) \<le> dynamicBatchSize n
       \<and> dynamicBatchSize n \<le> MAX_BATCH_SIZE"
proof -
  let ?k = "numBatches n" and ?s = "dynamicBatchSize n"
  have n: "0 < n" using assms by simp
  have s: "0 < ?s" using n by (rule dynamicBatchSize_pos)
  have k: "0 < ?k" using n by (rule numBatches_pos)
  have len: "length bs = ?k"
    unfolding bs_def single_file_batches_def using batch_loop_length [OF s [unfolded n_def], of stringsArray 0] batch_count [OF n]
    by (simp add: n_def)
  have cat: "concat bs = stringsArray"
    unfolding bs_def single_file_batches_def using batch_loop_concat [OF s [unfolded n_def], of stringsArray 0] by simp
  have nth: "length (bs ! j) = min ?s (n - j * ?s)" if "j < ?k" for j
    using batch_loop_nth [OF s [unfolded n_def], of j stringsArray 0] that len
    unfolding bs_def single_file_batches_def n_def by (simp add: slice_def min.commute)
  have low: "(?k - 1) * ?s < n" using ceil_div_lower [OF s n] batch_count [OF n] by simp
  have up: "n \<le> ?k * ?s" using ceil_div_upper [OF s, of n] batch_count [OF n] by simp
  have full: "length (bs ! j) = ?s" if "j < ?k - 1" for j
  proof -
    have "Suc j \<le> ?k - 1" using that by simp
    then have "Suc j * ?s \<le> (?k - 1) * ?s" by (rule mult_le_mono1)
    then have "j * ?s + ?s < n" using low by simp
    then show ?thesis using nth [of j] that by simp
  qed
  have "?k * ?s = (?k - 1) * ?s + ?s" using k by (cases ?k) simp_all
  then have lastlen: "n - (?k - 1) * ?s \<le> ?s" using up by linarith
  then have last: "length (bs ! (?k - 1)) = n - (?k - 1) * ?s" using nth [of "?k - 1"] k by simp
  have pos: "0 < length (bs ! (?k - 1))" using last low by linarith
  have le: "length (bs ! (?k - 1)) \<le> ?s" using last lastlen by linarith
  have all: "\<forall>j < ?k - 1. length (bs ! j) = ?s" using full by blast
  show ?thesis using len cat all last pos le dynamicBatchSize_le [OF n] by blast
qed

theorem C2_single_file_batches_shape_witness:
  "[0 ..< 250 :: nat] \<noteq> []
   \<and> length (single_file_batches [0 ..< 250 :: nat]) = 3
   \<and> concat (single_file_batches [0 ..< 250 :: nat]) = [0 ..< 250]
   \<and> length (single_file_batches [0 ..< 250 :: nat] ! 0) = 84
   \<and> length (single_file_batches [0 ..< 250 :: nat] ! 1) = 84
   \<and> length (single_file_batches [0 ..< 250 :: nat] ! 2) = 82"
proof -
  have ne: "[0 ..< 250 :: nat] \<noteq> []" by simp
  have k: "numBatches 250 = 3" by (simp add: numBatches_def ceil_div_def MAX_BATCH_SIZE_def)
  have s: "dynamicBatchSize 250 = 84" by (simp add: dynamicBatchSize_def k) (simp add: ceil_div_def)
  show ?thesis
    using C2_single_file_batches_shape [OF ne] ne by (simp add: k s)
qed


section \<open>Evaluating the example environment\<close>

lemma exHelpers_simps [simp]:
  "hashString exHelpers s = CHR ''#'' # s"
  "preserveFormats exHelpers s = s"
  "processed exHelpers s = s"
  "restoreFormats exHelpers t p = t"
  "sortObjectKeys exHelpers j = j"
  "compareKeysValid exHelpers a b = True"
  "pathResolve exHelpers p = p"
  "pathIsAbsolute exHelpers p = False"
  "pathDirname exHelpers p = ''.''"
  "expandPattern exHelpers p = [p]"
  "singleOutputPath exHelpers out l = out"
  "multiOutputPath exHelpers outp file l = file @ CHR ''.'' # l"
  "jsonParse exHelpers s =
     (if s = ''doc-a'' then Some docA else if s = ''doc-b'' then Some docB
      else if s = ''doc-c'' then Some docC else if s = ''doc-d'' then Some docD
      else if s = ''cache-0'' then Some exCacheJson
      else if s = ''null'' then Some JNull else None)"
  "stringifyCache exHelpers c = ''cache-1''"
  "addMetadata exHelpers srcl tgtl file n j = j"
  by (simp_all add: exHelpers_def)

lemma exTranslator_simps [simp]:
  "translate exTranslator strings tgtl srcl c = Some (map (\<lambda>s. ''es:'' @ s) strings)"
  "detectLanguage exTranslator = None"
  by (simp_all add: exTranslator_def)

lemma exOptions_simps [simp]:
  "lang exOptions = ''es''" "outputOpt exOptions = Some ''out.json''" "stdout exOptions = False"
  "useCache exOptions = True" "cacheFile exOptions = ''cache.json''"
  "detectSource exOptions = False" "dryRun exOptions = False"
  "shouldPreserveFormats exOptions = False" "includeMetadata exOptions = False"
  "sortKeys exOptions = False" "checkKeys exOptions = False"
  "translationContext exOptions = None"
  by (simp_all add: exOptions_def)

lemma exFs_simps [simp]:
  "node exFs ''a.json'' = Text ''doc-a''" "node exFs ''b.json'' = Text ''doc-b''"
  "node exFs ''c.json'' = Text ''doc-c''" "node exFs ''d.json'' = Text ''doc-d''"
  "node exFs ''cache.json'' = Text ''cache-0''" "node exFs ''.'' = Directory"
  "node exFs ''out.json'' = Missing" "write_denied exFs p = False"
  by (simp_all add: exFs_def)

lemma fs_put_simps [simp]:
  "node (fs_put fs p st) q = (if q = p then st else node fs q)"
  "write_denied (fs_put fs p st) = write_denied fs"
  by (simp_all add: fs_put_def)

lemma resolvedCacheFile_ex [simp]: "resolvedCacheFile exHelpers p = p"
  by (simp add: resolvedCacheFile_def)

lemma loadCache_exFs [simp]: "loadCache exHelpers exFs ''cache.json'' = exCacheJson"
  by (simp add: loadCache_def)

lemma asCache_empty [simp]: "asCache (JObject []) = Some Map.empty"
  by (simp add: asCache_def asObject_def)

lemma asCache_null [simp]: "asCache JNull = None"
  by (simp add: asCache_def asObject_def)

lemma asCache_ex [simp]: "asCache exCacheJson = Some exCache"
  by (simp add: asCache_def asObject_def asString_def exCacheJson_def exCache_def)

lemma langCacheRead_object [simp]: "langCacheRead (JObject []) f l = Inr (JObject [])"
  by (simp add: langCacheRead_def)

lemma langCacheRead_null [simp]: "langCacheRead JNull f l = Inl TypeError"
  by (simp add: langCacheRead_def)

lemma js_get_throws: "isl (js_get j k) \<longleftrightarrow> j = JNull"
  by (cases j) (simp_all split: option.splits)

lemma langCacheRead_throws: "isl (langCacheRead c f l) \<longleftrightarrow> c = JNull"
proof (cases "js_get c f")
  case (Inl e)
  then show ?thesis using js_get_throws [of c f] by (simp add: langCacheRead_def)
next
  case (Inr r)
  then have c: "c \<noteq> JNull" using js_get_throws [of c f] by auto
  show ?thesis
  proof (cases r)
    case None
    then show ?thesis using Inr c by (simp add: langCacheRead_def)
  next
    case (Some entry)
    show ?thesis
    proof (cases "js_get entry l")
      case (Inl e)
      then have "entry = JNull" using js_get_throws [of entry l] by simp
      then show ?thesis using Inr Some c by (simp add: langCacheRead_def)
    next
      case (Inr r')
      then show ?thesis using \<open>js_get c f = Inr r\<close> Some c
        by (cases r') (simp_all add: langCacheRead_def)
    qed
  qed
qed

lemma langCacheRead_ex: "langCacheRead exCacheJson f l \<noteq> Inl e"
  using langCacheRead_throws [of exCacheJson f l] by (auto simp: exCacheJson_def)


section \<open>The fields of a run\<close>

lemma asCache_not_null: "asCache j = Some c \<Longrightarrow> j \<noteq> JNull"
  by (auto simp: asCache_def asObject_def)

lemma langCacheRead_typed: "asCache j = Some c \<Longrightarrow> \<exists>v. langCacheRead j f l = Inr v"
  using langCacheRead_throws [of j f l] asCache_not_null [of j c]
  by (cases "langCacheRead j f l") auto

lemma fold_mergeEntry_fst:
  "fst (fold (mergeEntry H b f l) es (tm, c, n))
   = fold (\<lambda>(original, translated) m. m(hashString H original \<mapsto> translated)) es tm"
  by (induction es arbitrary: tm c n) (auto simp: mergeEntry_def)

lemma mergeBatches_fst:
  "fst (mergeBatches H b f l news (tm, c, n)) = mergeGlobal H news tm"
  unfolding mergeBatches_def mergeGlobal_def by (rule fold_mergeEntry_fst)

lemma singleFileTranslate_batches:
  "snd (snd (singleFileTranslate H T opts c0 f sl strs)) =
     single_file_batches (if useCache opts
      then cacheMisses H (langCacheOf c0 f (lang opts)) strs
      else strs)"
  by (simp add: singleFileTranslate_def Let_def split_beta)

lemma singleFileTranslate_map:
  "fst (singleFileTranslate H T opts c0 f sl strs) =
     mergeGlobal H
       (map (\<lambda>batch. translateBatch H T batch (lang opts) sl (shouldPreserveFormats opts) (translationContext opts))
            (snd (snd (singleFileTranslate H T opts c0 f sl strs))))
       (if useCache opts
        then cacheHits H (langCacheOf c0 f (lang opts)) strs
        else Map.empty)"
  by (simp add: singleFileTranslate_def Let_def split_beta mergeBatches_fst)

lemma processSingleFile_fields:
  fixes T :: translator and inputFile :: string
  assumes "readDocument H fs (pathResolve H inputFile) = Some sourceJson" "\<not> dryRun opts"
      and "asCache (if useCache opts then loadCache H fs (resolvedCacheFile H (cacheFile opts))
                    else JObject []) = Some c0"
  defines "strs \<equiv> new_Set (map snd (flattenObjectWithPaths sourceJson))"
  defines "sl \<equiv> fst (detectSourceLang T (detectSource opts) strs)"
  defines "tr \<equiv> singleFileTranslate H T opts c0 (pathResolve H inputFile) sl strs"
  defines "r \<equiv> processSingleFile H T fs inputFile opts"
  defines "rejected \<equiv> (case fst (snd tr) of
                          None \<Rightarrow> False
                        | Some c \<Rightarrow> saveCacheRejects H fs c (resolvedCacheFile H (cacheFile opts)))"
  shows "batches r = snd (snd tr)" and "saved r = fst (snd tr)"
    and "rejected \<Longrightarrow> printed r = [] \<and> written r = [] \<and> status r = Exit1"
    and "\<not> rejected \<Longrightarrow>
         rebuild (hashString H) (flattenObjectWithPaths sourceJson) (fst tr) sourceJson = Some (Inr translatedJson) \<Longrightarrow>
         printed r = (if stdout opts then [finishDocument H opts sl inputFile (length (flattenObjectWithPaths sourceJson)) translatedJson] else [])
       \<and> written r = (case outputOpt opts of Some out \<Rightarrow> if stdout opts then [] else [(singleOutputPath H out (lang opts), finishDocument H opts sl inputFile (length (flattenObjectWithPaths sourceJson)) translatedJson)] | None \<Rightarrow> [])
       \<and> status r = (if checkKeys opts \<and> \<not> compareKeysValid H sourceJson (finishDocument H opts sl inputFile (length (flattenObjectWithPaths sourceJson)) translatedJson) then Exit1 else Returned)"
    and "\<not> rejected \<Longrightarrow>
         rebuild (hashString H) (flattenObjectWithPaths sourceJson) (fst tr) sourceJson = Some (Inl e) \<Longrightarrow>
         printed r = [] \<and> written r = [] \<and> status r = Exit1"
    and "\<not> rejected \<Longrightarrow>
         rebuild (hashString H) (flattenObjectWithPaths sourceJson) (fst tr) sourceJson = None \<Longrightarrow>
         printed r = [] \<and> written r = [] \<and> status r = OutOfFuel"
proof -
  obtain v where v: "langCacheRead (if useCache opts then loadCache H fs (resolvedCacheFile H (cacheFile opts))
                    else JObject []) (pathResolve H inputFile) (lang opts) = Inr v"
    using langCacheRead_typed [OF assms(3)] by blast
  note defs = r_def tr_def sl_def strs_def rejected_def processSingleFile_def
  show "batches r = snd (snd tr)"
    unfolding defs using assms(1,2,3) v
    by (simp add: Let_def split_beta split: option.splits sum.splits)
  show "saved r = fst (snd tr)"
    unfolding defs using assms(1,2,3) v
    by (simp add: Let_def split_beta split: option.splits sum.splits)
  show "rejected \<Longrightarrow> printed r = [] \<and> written r = [] \<and> status r = Exit1"
    unfolding defs using assms(1,2,3) v
    by (simp add: Let_def split_beta)
  show "\<not> rejected \<Longrightarrow>
         rebuild (hashString H) (flattenObjectWithPaths sourceJson) (fst tr) sourceJson = Some (Inr translatedJson) \<Longrightarrow>
         printed r = (if stdout opts then [finishDocument H opts sl inputFile (length (flattenObjectWithPaths sourceJson)) translatedJson] else [])
       \<and> written r = (case outputOpt opts of Some out \<Rightarrow> if stdout opts then [] else [(singleOutputPath H out (lang opts), finishDocument H opts sl inputFile (length (flattenObjectWithPaths sourceJson)) translatedJson)] | None \<Rightarrow> [])
       \<and> status r = (if checkKeys opts \<and> \<not> compareKeysValid H sourceJson (finishDocument H opts sl inputFile (length (flattenObjectWithPaths sourceJson)) translatedJson) then Exit1 else Returned)"
    unfolding defs using assms(1,2,3) v
    by (simp add: Let_def split_beta)
  show "\<not> rejected \<Longrightarrow>
         rebuild (hashString H) (flattenObjectWithPaths sourceJson) (fst tr) sourceJson = Some (Inl e) \<Longrightarrow>
         printed r = [] \<and> written r = [] \<and> status r = Exit1"
    unfolding defs using assms(1,2,3) v
    by (simp add: Let_def split_beta)
  show "\<not> rejected \<Longrightarrow>
         rebuild (hashString H) (flattenObjectWithPaths sourceJson) (fst tr) sourceJson = None \<Longrightarrow>
         printed r = [] \<and> written r = [] \<and> status r = OutOfFuel"
    unfolding defs using assms(1,2,3) v
    by (simp add: Let_def split_beta)
qed


lemmas rebuild_eval =
  rebuild_def leaf_update_def flat_path_def escape_dots_def prop_key_def bracketed_def
  parseInt_def is_js_space_def is_digit_def digit_val_def digit_table_def digits_val_def
  num_key_def dec_str.simps digit_char_def array_index_def flattenObjectWithPaths_def


section \<open>Loading the cache\<close>

lemma cached_empty: "\<not> cached Map.empty h"
  by (simp add: cached_def)

lemma langCacheOf_empty: "langCacheOf Map.empty file l = Map.empty"
  by (simp add: langCacheOf_def)

lemma foundIn_empty: "foundIn Map.empty l h files = None"
  by (simp add: foundIn_def langCacheOf_empty cached_empty)

lemma loadCache_unavailable:
  assumes "node fs p = Missing \<or> node fs p = Unreadable \<or> node fs p = Directory
           \<or> (\<exists>data. node fs p = Text data \<and> jsonParse H data = None)"
  shows "loadCache H fs p = JObject []"
  using assms by (auto simp: loadCache_def)

lemma cacheMisses_empty: "cacheMisses H Map.empty strings = strings"
  by (simp add: cacheMisses_def cached_empty)

lemma cacheHits_empty: "cacheHits H Map.empty strings = Map.empty"
  unfolding cacheHits_def by (induction strings) (simp_all add: cached_empty)

lemma globalMisses_empty: "globalMisses H Map.empty l globalStringMap = map fst globalStringMap"
  by (simp add: globalMisses_def foundIn_empty case_prod_unfold)

lemma globalHits_empty: "globalHits H Map.empty l globalStringMap = Map.empty"
  unfolding globalHits_def
  by (induction globalStringMap) (simp_all add: foundIn_empty case_prod_unfold)

lemma finishDocument_useCache:
  "finishDocument H (opts\<lparr>useCache := b\<rparr>) = finishDocument H opts"
  by (intro ext) (simp add: finishDocument_def)

lemma singleFileTranslate_empty_cache:
  "fst (singleFileTranslate H T opts Map.empty f sl strs)
     = fst (singleFileTranslate H T (opts\<lparr>useCache := False\<rparr>) Map.empty f sl strs)
   \<and> snd (snd (singleFileTranslate H T opts Map.empty f sl strs)) = single_file_batches strs
   \<and> snd (snd (singleFileTranslate H T (opts\<lparr>useCache := False\<rparr>) Map.empty f sl strs))
       = single_file_batches strs
   \<and> fst (snd (singleFileTranslate H T (opts\<lparr>useCache := False\<rparr>) Map.empty f sl strs)) = None"
  by (simp add: singleFileTranslate_def Let_def split_beta mergeBatches_fst
        langCacheOf_empty cacheMisses_empty cacheHits_empty)

lemma singleFileTranslate_cache_off:
  "\<not> useCache opts \<Longrightarrow> fst (snd (singleFileTranslate H T opts c f sl strs)) = None"
  by (simp add: singleFileTranslate_def Let_def split_beta)

text \<open>
  A single-file run whose cache file is missing, unreadable or does not parse: every
  string is sent for translation, in the batches of the run without a cache, and the
  run ends as that run does unless saveCache is called and rejects, which ends it
  with \<open>Exit1\<close> and without output.
\<close>

lemma single_file_load_failure:
  fixes T :: translator and inputFile :: string
  assumes "node fs (resolvedCacheFile H (cacheFile opts)) = Missing
         \<or> node fs (resolvedCacheFile H (cacheFile opts)) = Unreadable
         \<or> node fs (resolvedCacheFile H (cacheFile opts)) = Directory
         \<or> (\<exists>data. node fs (resolvedCacheFile H (cacheFile opts)) = Text data
                    \<and> jsonParse H data = None)"
      and "readDocument H fs (pathResolve H inputFile) = Some sourceJson"
      and "\<not> dryRun opts"
  defines "r \<equiv> processSingleFile H T fs inputFile opts"
  defines "r' \<equiv> processSingleFile H T fs inputFile (opts\<lparr>useCache := False\<rparr>)"
  defines "rejected \<equiv> (case saved r of
                          None \<Rightarrow> False
                        | Some c \<Rightarrow> saveCacheRejects H fs c (resolvedCacheFile H (cacheFile opts)))"
  shows "batches r = single_file_batches (new_Set (map snd (flattenObjectWithPaths sourceJson)))"
    and "batches r' = batches r"
    and "\<not> rejected \<Longrightarrow> status r = status r' \<and> written r = written r' \<and> printed r = printed r'"
    and "rejected \<Longrightarrow> status r = Exit1 \<and> written r = [] \<and> printed r = []"
proof -
  let ?strs = "new_Set (map snd (flattenObjectWithPaths sourceJson))"
  let ?sl = "fst (detectSourceLang T (detectSource opts) ?strs)"
  let ?tr = "singleFileTranslate H T opts Map.empty (pathResolve H inputFile) ?sl ?strs"
  let ?tr' = "singleFileTranslate H T (opts\<lparr>useCache := False\<rparr>) Map.empty (pathResolve H inputFile) ?sl ?strs"
  have e: "loadCache H fs (resolvedCacheFile H (cacheFile opts)) = JObject []"
    using assms(1) by (rule loadCache_unavailable)
  have c: "asCache (if useCache opts then loadCache H fs (resolvedCacheFile H (cacheFile opts))
                    else JObject []) = Some Map.empty"
    by (simp add: e)
  have c': "asCache (if useCache (opts\<lparr>useCache := False\<rparr>)
                     then loadCache H fs (resolvedCacheFile H (cacheFile (opts\<lparr>useCache := False\<rparr>)))
                     else JObject []) = Some Map.empty"
    by simp
  have d': "\<not> dryRun (opts\<lparr>useCache := False\<rparr>)" using assms(3) by simp
  note f = processSingleFile_fields [OF assms(2,3) c, of T, folded r_def]
  note f' = processSingleFile_fields [OF assms(2) d' c', of T, folded r'_def, simplified]
  note tr = singleFileTranslate_empty_cache [of H T opts "pathResolve H inputFile" ?sl ?strs]
  have rej: "rejected \<longleftrightarrow> (case fst (snd ?tr) of None \<Rightarrow> False
                 | Some c \<Rightarrow> saveCacheRejects H fs c (resolvedCacheFile H (cacheFile opts)))"
    unfolding rejected_def f(2) ..
  have nrej': "fst (snd ?tr') = None"
    using tr by simp
  show 1: "batches r = single_file_batches ?strs"
    using f(1) tr by simp
  show "batches r' = batches r"
    using 1 f'(1) tr by simp
  show "status r = Exit1 \<and> written r = [] \<and> printed r = []" if "rejected"
    using f(3) that rej by simp
  show "status r = status r' \<and> written r = written r' \<and> printed r = printed r'" if "\<not> rejected"
  proof -
    have n: "\<not> (case fst (snd ?tr) of None \<Rightarrow> False
                 | Some c \<Rightarrow> saveCacheRejects H fs c (resolvedCacheFile H (cacheFile opts)))"
      using that rej by simp
    have m: "fst ?tr' = fst ?tr" using tr by simp
    consider (fuel) "rebuild (hashString H) (flattenObjectWithPaths sourceJson) (fst ?tr) sourceJson = None"
      | (err) e where "rebuild (hashString H) (flattenObjectWithPaths sourceJson) (fst ?tr) sourceJson = Some (Inl e)"
      | (ok) tj where "rebuild (hashString H) (flattenObjectWithPaths sourceJson) (fst ?tr) sourceJson = Some (Inr tj)"
    proof (cases "rebuild (hashString H) (flattenObjectWithPaths sourceJson) (fst ?tr) sourceJson")
      case None
      then show ?thesis using fuel by blast
    next
      case (Some a)
      then show ?thesis using err ok by (cases a) blast+
    qed
    then show ?thesis
    proof cases
      case fuel
      then show ?thesis using f(6) [OF n fuel] f'(6) m nrej' by simp
    next
      case err
      then show ?thesis using f(5) [OF n err] f'(5) [of e] m nrej' by simp
    next
      case ok
      then show ?thesis using f(4) [OF n ok] f'(4) [of tj] m nrej'
        by (simp add: finishDocument_useCache cong del: if_weak_cong option.case_cong_weak)
    qed
  qed
qed

subsection \<open>A cache path that is a directory\<close>

lemma single_file_batches_one: "single_file_batches [x] = [[x]]"
  by (simp add: single_file_batches_def dynamicBatchSize_def numBatches_def ceil_div_def
        MAX_BATCH_SIZE_def batch_loop.simps slice_def)

lemma flatten_docA [simp]: "flattenObjectWithPaths docA = [(''x'', ''Save'')]"
  by (simp add: flattenObjectWithPaths_def docA_def flat_path_def escape_dots_def)

lemma new_Set_ex [simp]:
  "new_Set [''Hello'', ''Hello''] = [''Hello'']"
  "new_Set [''Hello'', ''Bye''] = [''Hello'', ''Bye'']"
  "new_Set [''Save''] = [''Save'']"
  by (simp_all add: new_Set_def set_add_def)

lemma translateBatch_ex_Save:
  "translateBatch exHelpers exTranslator [''Save''] ''es'' ''English'' False None = [(''Save'', ''es:Save'')]"
  by (simp add: translateBatch_def processedStrings_def)

lemma translate_docA_empty:
  "fst (singleFileTranslate exHelpers exTranslator opts Map.empty ''a.json'' ''English'' [''Save'']) = [''#Save'' \<mapsto> ''es:Save'']"
  "snd (snd (singleFileTranslate exHelpers exTranslator opts Map.empty ''a.json'' ''English'' [''Save''])) = [[''Save'']]"
  if "lang opts = ''es''" "shouldPreserveFormats opts = False" "translationContext opts = None"
  using that
  by (simp_all add: singleFileTranslate_def Let_def split_beta mergeBatches_fst mergeGlobal_def
        langCacheOf_empty cacheMisses_empty cacheHits_empty single_file_batches_one
        translateBatch_ex_Save)

lemma saved_docA_empty:
  "fst (snd (singleFileTranslate exHelpers exTranslator exOptions Map.empty ''a.json'' ''English'' [''Save'']))
   = Some (fst (pruneCache exHelpers (cacheRecord Map.empty ''a.json'' ''es'' ''#Save'' ''es:Save'')
                  ''a.json'' ''es'' [''Save'']))"
  by (simp add: singleFileTranslate_def Let_def split_beta mergeBatches_def mergeEntry_def
        langCacheOf_empty cacheMisses_empty cacheHits_empty single_file_batches_one
        translateBatch_ex_Save)

lemma rebuild_docA:
  "rebuild (hashString exHelpers) [(''x'', ''Save'')] [''#Save'' \<mapsto> ''es:Save''] docA
   = Some (Inr (JObject [(''x'', JString ''es:Save'')]))"
  by (simp add: rebuild_eval docA_def)

lemma open_directory_rejects:
  "node fs p = Directory \<Longrightarrow> node fs (pathDirname H p) = Directory \<Longrightarrow> saveCacheRejects H fs c p"
  by (simp add: saveCacheRejects_def saveCache_def ensureCacheDirectory_def)

lemma readDocument_put:
  "q \<noteq> p \<Longrightarrow> readDocument H (fs_put fs p st) q = readDocument H fs q"
  by (simp add: readDocument_def)

lemma readDocument_ex [simp]:
  "readDocument exHelpers exFs ''a.json'' = Some docA"
  "readDocument exHelpers exFs ''b.json'' = Some docB"
  "readDocument exHelpers exFs ''c.json'' = Some docC"
  "readDocument exHelpers exFs ''d.json'' = Some docD"
  by (simp_all add: readDocument_def)

text \<open>
  Claim C5 on a cache path that is a directory, with the cache on: reading it fails,
  loadCache returns the empty cache and the one string of the document is sent for
  translation; the translation is recorded and saveCache is called, which the system
  rejects; the run ends with \<open>Exit1\<close> and no output, where the same run with the cache
  off returns and writes the translated document.
\<close>

theorem C5_directory_cache_aborts:
  "node (fs_put exFs ''cache.json'' Directory) ''cache.json'' = Directory
   \<and> loadCache exHelpers (fs_put exFs ''cache.json'' Directory) ''cache.json'' = JObject []
   \<and> batches (processSingleFile exHelpers exTranslator (fs_put exFs ''cache.json'' Directory)
                 ''a.json'' exOptions) = [[''Save'']]
   \<and> saved (processSingleFile exHelpers exTranslator (fs_put exFs ''cache.json'' Directory)
               ''a.json'' exOptions) \<noteq> None
   \<and> status (processSingleFile exHelpers exTranslator (fs_put exFs ''cache.json'' Directory)
                ''a.json'' exOptions) = Exit1
   \<and> written (processSingleFile exHelpers exTranslator (fs_put exFs ''cache.json'' Directory)
                 ''a.json'' exOptions) = []
   \<and> status (processSingleFile exHelpers exTranslator (fs_put exFs ''cache.json'' Directory)
                ''a.json'' (exOptions\<lparr>useCache := False\<rparr>)) = Returned
   \<and> written (processSingleFile exHelpers exTranslator (fs_put exFs ''cache.json'' Directory)
                 ''a.json'' (exOptions\<lparr>useCache := False\<rparr>))
       = [(''out.json'', JObject [(''x'', JString ''es:Save'')])]"
proof -
  let ?fs = "fs_put exFs ''cache.json'' Directory"
  have l: "loadCache exHelpers ?fs ''cache.json'' = JObject []"
    by (simp add: loadCache_def)
  have rd: "readDocument exHelpers ?fs (pathResolve exHelpers ''a.json'') = Some docA"
    by (simp add: readDocument_put)
  have c: "asCache (if useCache exOptions
                    then loadCache exHelpers ?fs (resolvedCacheFile exHelpers (cacheFile exOptions))
                    else JObject []) = Some Map.empty"
    by (simp add: l)
  have c': "asCache (if useCache (exOptions\<lparr>useCache := False\<rparr>)
                     then loadCache exHelpers ?fs
                            (resolvedCacheFile exHelpers (cacheFile (exOptions\<lparr>useCache := False\<rparr>)))
                     else JObject []) = Some Map.empty"
    by simp
  have rej: "saveCacheRejects exHelpers ?fs c ''cache.json''" for c
    by (rule open_directory_rejects) simp_all
  note f = processSingleFile_fields [OF rd _ c, of exTranslator]
  note f' = processSingleFile_fields [OF rd _ c', of exTranslator]
  have 1: "batches (processSingleFile exHelpers exTranslator ?fs ''a.json'' exOptions) = [[''Save'']]"
    using f(1) by (simp add: detectSourceLang_def translate_docA_empty)
  have 2: "saved (processSingleFile exHelpers exTranslator ?fs ''a.json'' exOptions) \<noteq> None"
    using f(2) by (simp add: detectSourceLang_def saved_docA_empty)
  have 3: "status (processSingleFile exHelpers exTranslator ?fs ''a.json'' exOptions) = Exit1
         \<and> written (processSingleFile exHelpers exTranslator ?fs ''a.json'' exOptions) = []"
    using f(3) rej by (simp add: detectSourceLang_def saved_docA_empty)
  have 4: "status (processSingleFile exHelpers exTranslator ?fs ''a.json'' (exOptions\<lparr>useCache := False\<rparr>)) = Returned
         \<and> written (processSingleFile exHelpers exTranslator ?fs ''a.json'' (exOptions\<lparr>useCache := False\<rparr>))
             = [(''out.json'', JObject [(''x'', JString ''es:Save'')])]"
    using f'(4) [of "JObject [(''x'', JString ''es:Save'')]"]
    by (simp add: detectSourceLang_def translate_docA_empty rebuild_docA finishDocument_def
          singleFileTranslate_cache_off)
  show ?thesis using l 1 2 3 4 by simp
qed


section \<open>Dry runs\<close>

lemma langCacheRead_cases:
  "(\<exists>v. langCacheRead j f l = Inr v) \<and> j \<noteq> JNull \<or> langCacheRead j f l = Inl TypeError \<and> j = JNull"
proof (cases "j = JNull")
  case True
  then show ?thesis by simp
next
  case False
  then have "\<not> isl (langCacheRead j f l)" by (simp add: langCacheRead_throws)
  then show ?thesis using False by (cases "langCacheRead j f l") auto
qed

text \<open>
  Claim C10: in dry-run mode processSingleFile hands no batch to the backend, does
  not call saveCache, writes no output file and prints no document, however it ends.
  It returns when the source file can be read and parsed, except when the cache is
  on and the cache file holds \<^verbatim>\<open>null\<close>: then the read of
  \<^verbatim>\<open>translationCache[sourceFilePath]\<close> throws and the run ends with \<open>Exit1\<close>.
\<close>

theorem C10_dry_run_frame:
  fixes H :: "'p helpers" and T :: translator and fs :: file_system and inputFile :: string
  assumes "dryRun opts"
  defines "r \<equiv> processSingleFile H T fs inputFile opts"
  shows "batches r = [] \<and> saved r = None \<and> written r = [] \<and> printed r = []
       \<and> (status r = Returned \<or> status r = Exit1)
       \<and> (status r = Exit1 \<longleftrightarrow>
            readDocument H fs (pathResolve H inputFile) = None
            \<or> useCache opts \<and> loadCache H fs (resolvedCacheFile H (cacheFile opts)) = JNull)"
proof (cases "readDocument H fs (pathResolve H inputFile)")
  case None
  then show ?thesis by (simp add: r_def processSingleFile_def no_effects_def)
next
  case (Some sourceJson)
  let ?loaded = "if useCache opts then loadCache H fs (resolvedCacheFile H (cacheFile opts))
                 else JObject []"
  have n: "?loaded = JNull \<longleftrightarrow> useCache opts \<and> loadCache H fs (resolvedCacheFile H (cacheFile opts)) = JNull"
    by simp
  show ?thesis
    using langCacheRead_cases [of ?loaded "pathResolve H inputFile" "lang opts"]
  proof (elim disjE conjE exE)
    fix v
    assume "langCacheRead ?loaded (pathResolve H inputFile) (lang opts) = Inr v" "?loaded \<noteq> JNull"
    then show ?thesis
      using Some assms(1) n
      by (simp add: r_def processSingleFile_def no_effects_def Let_def split_beta)
  next
    assume "langCacheRead ?loaded (pathResolve H inputFile) (lang opts) = Inl TypeError" "?loaded = JNull"
    then show ?thesis
      using Some assms(1) n
      by (simp add: r_def processSingleFile_def no_effects_def Let_def split_beta)
  qed
qed

theorem C10_dry_run_frame_witness:
  "dryRun (exOptions\<lparr>dryRun := True\<rparr>)
   \<and> loadCache exHelpers (fs_put exFs ''cache.json'' (Text ''null'')) ''cache.json'' = JNull
   \<and> batches (processSingleFile exHelpers exTranslator (fs_put exFs ''cache.json'' (Text ''null''))
                 ''a.json'' (exOptions\<lparr>dryRun := True\<rparr>)) = []
   \<and> saved (processSingleFile exHelpers exTranslator (fs_put exFs ''cache.json'' (Text ''null''))
               ''a.json'' (exOptions\<lparr>dryRun := True\<rparr>)) = None
   \<and> written (processSingleFile exHelpers exTranslator (fs_put exFs ''cache.json'' (Text ''null''))
                 ''a.json'' (exOptions\<lparr>dryRun := True\<rparr>)) = []
   \<and> status (processSingleFile exHelpers exTranslator (fs_put exFs ''cache.json'' (Text ''null''))
                ''a.json'' (exOptions\<lparr>dryRun := True\<rparr>)) = Exit1
   \<and> status (processSingleFile exHelpers exTranslator exFs ''a.json'' (exOptions\<lparr>dryRun := True\<rparr>))
       = Returned"
proof -
  let ?fs = "fs_put exFs ''cache.json'' (Text ''null'')"
  let ?opts = "exOptions\<lparr>dryRun := True\<rparr>"
  have hyp: "dryRun ?opts" by simp
  have null: "loadCache exHelpers ?fs ''cache.json'' = JNull"
    by (simp add: loadCache_def)
  have ok: "loadCache exHelpers exFs ''cache.json'' \<noteq> JNull"
    by (simp add: exCacheJson_def)
  have rd: "readDocument exHelpers ?fs (pathResolve exHelpers ''a.json'') \<noteq> None"
    "readDocument exHelpers exFs (pathResolve exHelpers ''a.json'') \<noteq> None"
    by (simp_all add: readDocument_put)
  have eq: "resolvedCacheFile exHelpers (cacheFile ?opts) = ''cache.json''" "useCache ?opts"
    by simp_all
  show ?thesis
    using C10_dry_run_frame [where H = exHelpers and T = exTranslator and fs = "?fs"
        and inputFile = "''a.json''", OF hyp]
      C10_dry_run_frame [where H = exHelpers and T = exTranslator and fs = exFs
        and inputFile = "''a.json''", OF hyp]
      hyp null ok rd
    unfolding eq by auto
qed


subsection \<open>The probes of a multi-file run\<close>

lemma cacheProbe_throws: "isl (cacheProbe c f l h) \<longleftrightarrow> c = JNull"
proof (cases "js_get c f")
  case (Inl e)
  then show ?thesis using js_get_throws [of c f] by (simp add: cacheProbe_def)
next
  case (Inr r)
  then have c: "c \<noteq> JNull" using js_get_throws [of c f] by auto
  show ?thesis
  proof (cases r)
    case None
    then show ?thesis using Inr c by (simp add: cacheProbe_def)
  next
    case (Some entry)
    note entry = Some
    show ?thesis
    proof (cases "js_get entry l")
      case (Inl e)
      then have "entry = JNull" using js_get_throws [of entry l] by simp
      then show ?thesis using Inr entry c by (simp add: cacheProbe_def)
    next
      case (Inr r')
      note r' = Inr
      show ?thesis
      proof (cases r')
        case None
        then show ?thesis using \<open>js_get c f = Inr r\<close> entry c r' by (simp add: cacheProbe_def)
      next
        case (Some lc)
        show ?thesis
        proof (cases "js_get lc h")
          case (Inl e)
          then have "lc = JNull" using js_get_throws [of lc h] by simp
          then show ?thesis using \<open>js_get c f = Inr r\<close> entry c r' Some by (simp add: cacheProbe_def)
        next
          case (Inr r'')
          then show ?thesis using \<open>js_get c f = Inr r\<close> entry c r' Some
            by (cases r'') (simp_all add: cacheProbe_def)
        qed
      qed
    qed
  qed
qed

lemma probeFiles_throws: "isl (probeFiles c l h files) \<Longrightarrow> c = JNull"
proof (induction files)
  case Nil
  then show ?case by simp
next
  case (Cons f files)
  show ?case
  proof (cases "cacheProbe c f l h")
    case (Inl e)
    then show ?thesis using cacheProbe_throws [of c f l h] by simp
  next
    case (Inr found)
    then show ?thesis using Cons by (cases found) simp_all
  qed
qed

lemma probes_typed: "asCache j = Some c \<Longrightarrow> \<not> probesThrow H j l gm"
  using probeFiles_throws [of j l] asCache_not_null [of j c]
  by (auto simp: probesThrow_def list_ex_iff)

lemma probes_object [simp]: "\<not> probesThrow H (JObject []) l gm"
  by (rule probes_typed [OF asCache_empty])


section \<open>Pruning\<close>

lemma pruneCache_dom:
  assumes "fst (pruneCache H c f l strs) = c'" "c' f = Some e" "e l = Some lc"
  shows "dom lc \<subseteq> hashString H ` set strs"
  using assms
  by (auto simp: pruneCache_def Let_def restrict_map_def split: option.splits if_splits)

lemma singleFileTranslate_saved:
  "fst (snd (singleFileTranslate H T opts c0 f sl strs)) = Some c \<Longrightarrow>
   \<exists>c1. c = fst (pruneCache H c1 f (lang opts) strs)"
  by (auto simp: singleFileTranslate_def Let_def split_beta split: if_splits)

lemma singleFileTranslate_pruned:
  assumes "fst (snd (singleFileTranslate H T opts c0 f sl strs)) = Some c"
      and "c f = Some e" and "e (lang opts) = Some lc"
  shows "dom lc \<subseteq> hashString H ` set strs"
proof -
  obtain c1 where "c = fst (pruneCache H c1 f (lang opts) strs)"
    using singleFileTranslate_saved [OF assms(1)] by blast
  then show ?thesis
    using pruneCache_dom [where c' = c and f = f and l = "lang opts" and e = e and lc = lc]
      assms(2,3) by blast
qed

subsection \<open>The two paths on the example\<close>

lemma flatten_docB [simp]: "flattenObjectWithPaths docB = [(''y'', ''Save''), (''z'', ''Open'')]"
  by (simp add: flattenObjectWithPaths_def docB_def flat_path_def escape_dots_def)

lemma collect_ex:
  "collectFile exHelpers exFs exOptions ''b.json'' (collectFile exHelpers exFs exOptions ''a.json'' ([], []))
   = ([(''a.json'', docA, [(''x'', ''Save'')], ''a.json.es''),
       (''b.json'', docB, [(''y'', ''Save''), (''z'', ''Open'')], ''b.json.es'')],
      [(''Save'', [''a.json'', ''b.json'']), (''Open'', [''b.json''])])"
  by (simp add: collectFile_def addString_def set_add_def)

lemma langCache_ex [simp]:
  "langCacheOf exCache ''a.json'' ''es'' = [''#Old'' \<mapsto> ''Viejo'', ''#Save'' \<mapsto> ''Guardar'']"
  "langCacheOf exCache ''b.json'' ''es'' = Map.empty"
  by (simp_all add: langCacheOf_def exCache_def)

lemma misses_ex:
  "globalMisses exHelpers exCache ''es'' [(''Save'', [''a.json'', ''b.json'']), (''Open'', [''b.json''])] = [''Open'']"
  by (simp add: globalMisses_def foundIn_def cached_def)

lemma hits_ex:
  "globalHits exHelpers exCache ''es'' [(''Save'', [''a.json'', ''b.json'']), (''Open'', [''b.json''])] = [''#Save'' \<mapsto> ''Guardar'']"
  by (simp add: globalHits_def foundIn_def cached_def)

lemma batches_ex: "multi_file_batches [''Open''] = [[''Open'']]"
  by (simp add: multi_file_batches_def numBatches_def ceil_div_def MAX_BATCH_SIZE_def slice_def)

lemma tb_ex: "translateBatch exHelpers exTranslator [''Open''] ''es'' ''English'' False None = [(''Open'', ''es:Open'')]"
  by (simp add: translateBatch_def processedStrings_def)

lemma multi_translate_ex:
  "multiFileTranslate exHelpers exTranslator exOptions exCache ''English''
      [(''Save'', [''a.json'', ''b.json'']), (''Open'', [''b.json''])]
   = ([''#Save'' \<mapsto> ''Guardar'', ''#Open'' \<mapsto> ''es:Open''],
      Some (updateCache exHelpers ''es'' [''#Save'' \<mapsto> ''Guardar'', ''#Open'' \<mapsto> ''es:Open'']
              [(''Save'', [''a.json'', ''b.json'']), (''Open'', [''b.json''])] exCache),
      [[''Open'']])"
  by (simp add: multiFileTranslate_def Let_def misses_ex hits_ex batches_ex tb_ex mergeGlobal_def)

lemma probes_ex: "\<not> probesThrow exHelpers exCacheJson l gm"
  by (rule probes_typed [OF asCache_ex])

lemma saved_ex:
  "saved (processMultipleFiles exHelpers exTranslator exFs [''a.json'', ''b.json''] exOptions)
   = Some (updateCache exHelpers ''es'' [''#Save'' \<mapsto> ''Guardar'', ''#Open'' \<mapsto> ''es:Open'']
              [(''Save'', [''a.json'', ''b.json'']), (''Open'', [''b.json''])] exCache)"
  by (simp add: processMultipleFiles_def Let_def new_Set_def set_add_def collect_ex detectSourceLang_def
       multi_translate_ex probes_ex split_beta)

lemma stale_ex:
  "langCacheOf (updateCache exHelpers ''es'' [''#Save'' \<mapsto> ''Guardar'', ''#Open'' \<mapsto> ''es:Open'']
              [(''Save'', [''a.json'', ''b.json'']), (''Open'', [''b.json''])] exCache) ''a.json'' ''es'' ''#Old'' = Some ''Viejo''"
  by (simp add: updateCache_def cacheRecord_def langCacheOf_def exCache_def Let_def)

lemma single_misses_ex:
  "cacheMisses exHelpers [''#Old'' \<mapsto> ''Viejo'', ''#Save'' \<mapsto> ''Guardar''] [''Save''] = []"
  "cacheHits exHelpers [''#Old'' \<mapsto> ''Viejo'', ''#Save'' \<mapsto> ''Guardar''] [''Save''] = [''#Save'' \<mapsto> ''Guardar'']"
  by (simp_all add: cacheMisses_def cacheHits_def cached_def)

lemma batch_loop_Nil [simp]: "batch_loop [] step i = []"
  by (subst batch_loop.simps) simp

lemma prune_ex:
  "snd (pruneCache exHelpers exCache ''a.json'' ''es'' [''Save'']) = {''#Old''}"
  "langCacheOf (fst (pruneCache exHelpers exCache ''a.json'' ''es'' [''Save''])) ''a.json'' ''es'' ''#Old'' = None"
  "langCacheOf (fst (pruneCache exHelpers exCache ''a.json'' ''es'' [''Save''])) ''a.json'' ''es'' ''#Save'' = Some ''Guardar''"
  by (auto simp: pruneCache_def exCache_def langCacheOf_def restrict_map_def Let_def)

lemma single_translate_ex:
  "singleFileTranslate exHelpers exTranslator exOptions exCache ''a.json'' ''English'' [''Save'']
   = ([''#Save'' \<mapsto> ''Guardar''],
      Some (fst (pruneCache exHelpers exCache ''a.json'' ''es'' [''Save''])),
      [])"
  by (simp add: singleFileTranslate_def Let_def single_misses_ex single_file_batches_def
        mergeBatches_def split_beta prune_ex)

lemma single_saved_ex:
  "saved (processSingleFile exHelpers exTranslator exFs ''a.json'' exOptions)
   = Some (fst (pruneCache exHelpers exCache ''a.json'' ''es'' [''Save'']))"
proof -
  have c: "asCache (if useCache exOptions
                    then loadCache exHelpers exFs (resolvedCacheFile exHelpers (cacheFile exOptions))
                    else JObject []) = Some exCache"
    by simp
  show ?thesis
    using processSingleFile_fields(2) [OF _ _ c, of "''a.json''" docA exTranslator]
    by (simp add: detectSourceLang_def single_translate_ex)
qed

text \<open>
  Claim C6 on the example: the cache holds a stale entry (\<open>#Old\<close>) for
  \<open>a.json\<close>, whose only string is \<open>Save\<close>. The single-file run over
  \<open>a.json\<close> saves a cache without the entry; the multi-file run over \<open>a.json\<close>
  and \<open>b.json\<close> saves a cache that still has it.
\<close>

theorem C6_multi_file_keeps_stale_entry:
  "map snd (flattenObjectWithPaths docA) = [''Save'']
   \<and> (case asCache (loadCache exHelpers exFs ''cache.json'') of
         None \<Rightarrow> None
       | Some c \<Rightarrow> Some (langCacheOf c ''a.json'' ''es'' ''#Old'')) = Some (Some ''Viejo'')
   \<and> (case saved (processSingleFile exHelpers exTranslator exFs ''a.json'' exOptions) of
         None \<Rightarrow> None
       | Some c \<Rightarrow> Some (langCacheOf c ''a.json'' ''es'' ''#Old'')) = Some None
   \<and> (case saved (processMultipleFiles exHelpers exTranslator exFs [''a.json'', ''b.json''] exOptions) of
         None \<Rightarrow> None
       | Some c \<Rightarrow> Some (langCacheOf c ''a.json'' ''es'' ''#Old'')) = Some (Some ''Viejo'')"
  by (simp add: saved_ex stale_ex single_saved_ex prune_ex)


section \<open>Reconstruction\<close>

subsection \<open>Array indices as path segments\<close>

lemma digit_cases: "d < 10 \<Longrightarrow> d = 0 \<or> d = 1 \<or> d = 2 \<or> d = 3 \<or> d = 4 \<or> d = 5 \<or> d = 6 \<or> d = 7 \<or> d = 8 \<or> d = (9::nat)"
  by arith

lemma digit_char_props:
  assumes "d < 10"
  shows "digit_val (digit_char d) = Some d"
    and "\<not> is_js_space (digit_char d)"
    and "digit_char d \<noteq> CHR ''-''" and "digit_char d \<noteq> CHR ''+''"
    and "digit_char d \<noteq> CHR ''x''" and "digit_char d \<noteq> CHR ''X''"
    and "digit_char d = CHR ''0'' \<longleftrightarrow> d = 0"
  using digit_cases [OF assms]
  by (auto simp: digit_char_def digit_val_def digit_table_def is_js_space_def)

lemma is_digit_digit_char: "d < 10 \<Longrightarrow> is_digit 10 (digit_char d)"
  by (simp add: is_digit_def digit_char_props)

lemma dec_str_digits: "list_all (is_digit 10) (dec_str n)"
proof (induction n rule: dec_str.induct)
  case (1 n)
  then show ?case by (subst dec_str.simps) (auto simp: is_digit_digit_char)
qed

lemma dec_str_nonempty: "dec_str n \<noteq> []"
  by (subst dec_str.simps) simp

lemma digits_val_snoc:
  "digits_val r (ds @ [c]) = digits_val r ds * r + the (digit_val c)"
  by (simp add: digits_val_def)

lemma digits_val_dec_str: "digits_val 10 (dec_str n) = n"
proof (induction n rule: dec_str.induct)
  case (1 n)
  show ?case
  proof (cases "n < 10")
    case True
    then show ?thesis by (subst dec_str.simps) (simp add: digits_val_def digit_char_props)
  next
    case False
    then have "digits_val 10 (dec_str (n div 10)) = n div 10" using 1 by simp
    then show ?thesis using False
      by (subst dec_str.simps) (simp add: digits_val_snoc digit_char_props)
  qed
qed

lemma array_index_dec_str: "array_index (dec_str i) = Some i"
  by (simp add: array_index_def dec_str_digits dec_str_nonempty digits_val_dec_str)

lemma hd_dec_str: "\<exists>d < 10. hd (dec_str n) = digit_char d"
proof (induction n rule: dec_str.induct)
  case (1 n)
  show ?case
  proof (cases "n < 10")
    case True
    then show ?thesis by (subst dec_str.simps) auto
  next
    case False
    then show ?thesis using 1 dec_str_nonempty [of "n div 10"]
      by (subst dec_str.simps) simp
  qed
qed

lemma dec_str_no_hex_prefix: "take 2 (dec_str n) \<noteq> ''0x'' \<and> take 2 (dec_str n) \<noteq> ''0X''"
proof -
  have "list_all (is_digit 10) (take 2 (dec_str n))"
    using dec_str_digits [of n] by (simp add: list_all_iff) (meson in_set_takeD)
  moreover have "\<not> is_digit 10 CHR ''x''" "\<not> is_digit 10 CHR ''X''"
    by (simp_all add: is_digit_def digit_val_def digit_table_def)
  ultimately show ?thesis by auto
qed

lemma takeWhile_all: "list_all P xs \<Longrightarrow> takeWhile P xs = xs"
  by (induction xs) auto

lemma parseInt_dec_str: "parseInt (dec_str n) = Some (int n)"
proof -
  obtain d where d: "d < 10" "hd (dec_str n) = digit_char d" using hd_dec_str by blast
  have ne: "dec_str n \<noteq> []" by (rule dec_str_nonempty)
  have sp: "dropWhile is_js_space (dec_str n) = dec_str n"
    using ne d digit_char_props(2) [OF d(1)] by (cases "dec_str n") auto
  have sg: "hd (dec_str n) \<noteq> CHR ''-''" "hd (dec_str n) \<noteq> CHR ''+''"
    using d digit_char_props(3,4) by auto
  show ?thesis
    unfolding parseInt_def sp Let_def
    using sg dec_str_no_hex_prefix [of n] ne
    by (simp add: takeWhile_all dec_str_digits digits_val_dec_str)
qed

lemma bracketed_idx: "bracketed (CHR ''['' # dec_str i @ '']'')"
  unfolding bracketed_def by simp

lemma prop_key_idx: "prop_key (seg_str (Idx i)) = dec_str i"
  by (simp add: prop_key_def bracketed_idx butlast_append parseInt_dec_str num_key_def)

lemma prop_key_key: "\<not> bracketed k \<Longrightarrow> prop_key (seg_str (Key k)) = k"
  by (simp add: prop_key_def)

subsection \<open>Locations\<close>

lemma child_at_put_child:
  "child_at t sg = Some old \<Longrightarrow> child_at (put_child t sg c) sg = Some c"
  by (cases "(t, sg)" rule: child_at.cases) (auto simp: update_conv' split: if_splits)

lemma child_at_put_child_other:
  "sg' \<noteq> sg \<Longrightarrow> child_at (put_child t sg c) sg' = child_at t sg'"
  by (cases "(t, sg)" rule: child_at.cases; cases sg') (auto simp: update_conv')

lemma put_child_same:
  "child_at t sg = Some c \<Longrightarrow> put_child t sg c = t"
  by (cases "(t, sg)" rule: child_at.cases) (auto simp: update_triv split: if_splits)

lemma put_child_twice:
  "put_child (put_child t sg a) sg b = put_child t sg b"
  by (cases "(t, sg)" rule: child_at.cases) auto

lemma get_at_append:
  "get_at t (loc @ loc') = (case get_at t loc of None \<Rightarrow> None | Some c \<Rightarrow> get_at c loc')"
  by (induction loc arbitrary: t) (auto split: option.splits)

lemma get_at_put_at:
  "get_at t loc = Some old \<Longrightarrow> get_at (put_at t loc c) loc = Some c"
  by (induction loc arbitrary: t) (auto simp: child_at_put_child split: option.splits)

lemma put_at_append:
  "get_at t loc = Some ch \<Longrightarrow> put_at t (loc @ loc') c = put_at t loc (put_at ch loc' c)"
  by (induction loc arbitrary: t) (auto split: option.splits)

lemma put_at_twice:
  "get_at t loc = Some old \<Longrightarrow> put_at (put_at t loc a) loc b = put_at t loc b"
  by (induction loc arbitrary: t) (auto simp: child_at_put_child put_child_twice split: option.splits)

lemma put_at_same:
  "get_at t loc = Some c \<Longrightarrow> put_at t loc c = t"
  by (induction loc arbitrary: t) (auto simp: put_child_same split: option.splits)

lemma nav_child:
  assumes "child_at t sg = Some ch" "plain_loc [sg]"
  shows "js_get t (prop_key (seg_str sg)) = Inr (Some ch)"
    and "js_set t (prop_key (seg_str sg)) c = Inr (put_child t sg c)"
  using assms
  by (cases "(t, sg)" rule: child_at.cases;
      auto simp: plain_loc_def prop_key_idx [simplified] prop_key_key [simplified] array_index_dec_str
           dest: map_of_SomeD intro: rev_image_eqI split: if_splits)+

lemma assign_path_plain:
  assumes "plain_loc (loc @ [sg])" "get_at root (loc @ [sg]) = Some old"
  shows "assign_path root (map seg_str loc) (seg_str sg) v = Inr (put_at root (loc @ [sg]) (JString v))"
  using assms
proof (induction loc arbitrary: root)
  case Nil
  then obtain ch where "child_at root sg = Some ch" by (auto split: option.splits)
  then show ?case using Nil nav_child(2) [of root sg ch] by (simp add: plain_loc_def)
next
  case (Cons s loc)
  then obtain ch where ch: "child_at root s = Some ch" "get_at ch (loc @ [sg]) = Some old"
    by (auto split: option.splits)
  have ps: "plain_loc [s]" "plain_loc (loc @ [sg])" using Cons.prems(1) by (auto simp: plain_loc_def)
  show ?case
    using Cons.IH [OF ps(2) ch(2)] nav_child [OF ch(1) ps(1)] ch(1)
    by simp
qed

subsection \<open>The walk\<close>

lemma fold_max_ge: "(m::nat) \<le> fold max ns m"
  by (induction ns arbitrary: m) (auto intro: order_trans [OF max.cobounded2])

lemma fold_max_mem: "x \<in> set ns \<Longrightarrow> (x::nat) \<le> fold max ns m"
proof (induction ns arbitrary: m)
  case Nil then show ?case by simp
next
  case (Cons a ns)
  show ?case
  proof (cases "x = a")
    case True
    then show ?thesis using fold_max_ge [of "max a m" ns] by simp
  next
    case False
    then show ?thesis using Cons by simp
  qed
qed

lemma depth_obj_child: "(k, v) \<in> set kvs \<Longrightarrow> depth v < depth (JObject kvs)"
  using fold_max_mem [of "depth v" "map (\<lambda>(k, v). depth v) kvs" 0]
  by (force simp: less_Suc_eq_le)

lemma depth_arr_child: "x \<in> set xs \<Longrightarrow> depth x < depth (JArray xs)"
  using fold_max_mem [of "depth x" "map depth xs" 0] by (simp add: less_Suc_eq_le)

lemma depth_pos: "0 < depth t"
  by (cases t) auto

text \<open>The walk over the children of one node.\<close>

lemma walk_children:
  fixes F :: "json \<Rightarrow> seg list \<Rightarrow> (js_error + json) option"
  assumes "distinct sgs"
      and "get_at root loc = Some t"
      and "\<And>sg. sg \<in> set sgs \<Longrightarrow> child_at t sg = Some (c sg)"
      and "\<And>sg r. sg \<in> set sgs \<Longrightarrow> get_at r (loc @ [sg]) = Some (c sg) \<Longrightarrow>
             F r (loc @ [sg]) = Some (Inr (put_at r (loc @ [sg]) (g sg)))"
  shows "fold (\<lambda>sg acc. case acc of Some (Inr cur) \<Rightarrow> F cur (loc @ [sg]) | _ \<Rightarrow> acc) sgs (Some (Inr root))
         = Some (Inr (put_at root loc (fold (\<lambda>sg u. put_child u sg (g sg)) sgs t)))"
  using assms
proof (induction sgs arbitrary: root t)
  case Nil
  then show ?case by (simp add: put_at_same)
next
  case (Cons sg sgs)
  have ch: "child_at t sg = Some (c sg)" using Cons.prems(3) by simp
  have g1: "get_at root (loc @ [sg]) = Some (c sg)"
    using Cons.prems(2) ch by (simp add: get_at_append)
  have step: "F root (loc @ [sg]) = Some (Inr (put_at root (loc @ [sg]) (g sg)))"
    using Cons.prems(4) [of sg root] g1 by simp
  let ?t' = "put_child t sg (g sg)"
  let ?r' = "put_at root loc ?t'"
  have r': "put_at root (loc @ [sg]) (g sg) = ?r'"
    using put_at_append [OF Cons.prems(2), of "[sg]" "g sg"] ch by simp
  have g': "get_at ?r' loc = Some ?t'" using Cons.prems(2) by (rule get_at_put_at)
  have ch': "child_at ?t' s = Some (c s)" if "s \<in> set sgs" for s
  proof -
    have "s \<noteq> sg" using that Cons.prems(1) by auto
    then show ?thesis using Cons.prems(3) [of s] that by (simp add: child_at_put_child_other)
  qed
  have "distinct sgs" using Cons.prems(1) by simp
  from Cons.IH [OF this g' ch'] Cons.prems(4)
  show ?case using step r' put_at_twice [OF Cons.prems(2)] by simp
qed

lemma update_append_fresh:
  "k \<notin> fst ` set pre \<Longrightarrow> AList.update k x (pre @ (k, v) # r) = pre @ (k, x) # r"
  by (induction pre) auto

lemma fold_put_keys:
  "distinct (map fst (pre @ rest)) \<Longrightarrow>
   fold (\<lambda>sg u. put_child u sg (G sg)) (map (Key \<circ> fst) rest) (JObject (pre @ rest))
   = JObject (pre @ map (\<lambda>(k, v). (k, G (Key k))) rest)"
proof (induction rest arbitrary: pre)
  case Nil
  then show ?case by simp
next
  case (Cons kv rest)
  obtain k v where kv: "kv = (k, v)" by (cases kv)
  have fresh: "k \<notin> fst ` set pre" using Cons.prems kv by auto
  have d: "distinct (map fst ((pre @ [(k, G (Key k))]) @ rest))" using Cons.prems kv by auto
  show ?case using Cons.IH [OF d] by (simp add: kv update_append_fresh [OF fresh])
qed

lemma fold_put_indices:
  "n \<le> length xs \<Longrightarrow>
   fold (\<lambda>sg u. put_child u sg (G sg)) (map Idx [0 ..< n]) (JArray xs)
   = JArray (map (\<lambda>i. G (Idx i)) [0 ..< n] @ drop n xs)"
proof (induction n)
  case 0
  then show ?case by simp
next
  case (Suc n)
  then have "n < length xs" by simp
  then have "(map (\<lambda>i. G (Idx i)) [0 ..< n] @ drop n xs)[n := G (Idx n)]
             = map (\<lambda>i. G (Idx i)) [0 ..< n] @ G (Idx n) # drop (Suc n) xs"
    by (simp add: list_update_append Cons_nth_drop_Suc [symmetric])
  then show ?case using Suc by simp
qed

lemma map_of_distinct_mem:
  "distinct (map fst kvs) \<Longrightarrow> (k, v) \<in> set kvs \<Longrightarrow> map_of kvs k = Some v"
  by (rule map_of_is_SomeI)

lemma list_all_pairD: "list_all (\<lambda>(k, v). P k v) kvs \<Longrightarrow> (k, v) \<in> set kvs \<Longrightarrow> P k v"
  by (auto simp: list_all_iff)

lemma map_nth_image: "map (\<lambda>i. f (xs ! i)) [0 ..< length xs] = map f xs"
  by (rule nth_equalityI) simp_all

lemma apply_exact:
  assumes "get_at root loc = Some t" "depth t \<le> fuel" "plain_loc loc"
      and "distinct_keys t" "plain_keys t"
      and "loc = [] \<longrightarrow> (\<forall>s. t \<noteq> JString s)"
      and "\<And>q s. get_at t q = Some (JString s) \<Longrightarrow>
             map_of spm (flat_path (map seg_str (loc @ q))) = Some s"
  shows "applyTranslations fuel h spm M root loc
         = Some (Inr (put_at root loc (map_strings (translated_value h M) t)))"
  using assms
proof (induction t arbitrary: root loc fuel)
  case (JString s)
  obtain n where fuel: "fuel = Suc n" using JString.prems(2) by (cases fuel) auto
  have ne: "loc \<noteq> []" using JString.prems(6) by auto
  have src: "map_of spm (flat_path (map seg_str loc)) = Some s"
    using JString.prems(7) [of "[]" s] by simp
  have same: "put_at root loc (JString s) = root" using JString.prems(1) by (rule put_at_same)
  have asg: "assign_path root (butlast (map seg_str loc)) (last (map seg_str loc)) v
             = Inr (put_at root loc (JString v))" for v
  proof -
    have l: "loc = butlast loc @ [last loc]" using ne by simp
    have "assign_path root (map seg_str (butlast loc)) (seg_str (last loc)) v
          = Inr (put_at root (butlast loc @ [last loc]) (JString v))"
      by (rule assign_path_plain) (use l JString.prems(1,3) in simp_all)
    then show ?thesis using l ne by (simp add: map_butlast last_map)
  qed
  show ?case
    using JString.prems(1) src same asg ne
    by (simp add: fuel leaf_update_def translated_value_def split: option.splits)
next
  case (JNumber x)
  obtain n where fuel: "fuel = Suc n" using JNumber.prems(2) by (cases fuel) auto
  show ?case using JNumber.prems(1) by (simp add: fuel put_at_same)
next
  case (JBool x)
  obtain n where fuel: "fuel = Suc n" using JBool.prems(2) by (cases fuel) auto
  show ?case using JBool.prems(1) by (simp add: fuel put_at_same)
next
  case JNull
  obtain n where fuel: "fuel = Suc n" using JNull.prems(2) by (cases fuel) auto
  show ?case using JNull.prems(1) by (simp add: fuel put_at_same)
next
  case (JArray xs)
  obtain n where fuel: "fuel = Suc n" using JArray.prems(2) by (cases fuel) auto
  let ?F = "applyTranslations n h spm M"
  let ?g = "\<lambda>sg. case sg of Idx i \<Rightarrow> map_strings (translated_value h M) (xs ! i) | Key k \<Rightarrow> JNull"
  let ?c = "\<lambda>sg. case sg of Idx i \<Rightarrow> xs ! i | Key k \<Rightarrow> JNull"
  let ?sgs = "map Idx [0 ..< length xs]"
  have d: "distinct ?sgs" by (simp add: distinct_map inj_on_def)
  have ch: "child_at (JArray xs) sg = Some (?c sg)" if a: "sg \<in> set ?sgs" for sg
    using a by auto
  have st: "?F r (loc @ [sg]) = Some (Inr (put_at r (loc @ [sg]) (?g sg)))"
    if a: "sg \<in> set ?sgs" and b: "get_at r (loc @ [sg]) = Some (?c sg)" for sg r
  proof -
    obtain i where i: "sg = Idx i" "i < length xs" using a by auto
    have mem: "xs ! i \<in> set xs" using i by simp
    have dp: "depth (xs ! i) \<le> n"
      using depth_arr_child [OF mem] JArray.prems(2) fuel by simp
    have pl: "plain_loc (loc @ [Idx i])" using JArray.prems(3) by (simp add: plain_loc_def)
    have dk: "distinct_keys (xs ! i)" "plain_keys (xs ! i)"
      using JArray.prems(4,5) mem by (auto simp: list_all_iff)
    have src: "map_of spm (flat_path (map seg_str ((loc @ [Idx i]) @ q))) = Some s"
      if c: "get_at (xs ! i) q = Some (JString s)" for q s
      using JArray.prems(7) [of "Idx i # q" s] c i by simp
    show ?thesis
      using JArray.IH [OF mem _ dp pl dk _ src, of r] b i by simp
  qed
  have "fold (\<lambda>sg acc. case acc of Some (Inr cur) \<Rightarrow> ?F cur (loc @ [sg]) | _ \<Rightarrow> acc) ?sgs (Some (Inr root))
        = Some (Inr (put_at root loc (fold (\<lambda>sg u. put_child u sg (?g sg)) ?sgs (JArray xs))))"
    using d JArray.prems(1) ch st by (rule walk_children)
  moreover have "fold (\<lambda>sg u. put_child u sg (?g sg)) ?sgs (JArray xs)
                 = map_strings (translated_value h M) (JArray xs)"
    using fold_put_indices [of "length xs" xs ?g] by (simp add: map_nth_image)
  ultimately show ?case
    using JArray.prems(1) by (simp add: fuel fold_map comp_def)
next
  case (JObject kvs)
  obtain n where fuel: "fuel = Suc n" using JObject.prems(2) by (cases fuel) auto
  have dist: "distinct (map fst kvs)" using JObject.prems(4) by simp
  let ?F = "applyTranslations n h spm M"
  let ?c = "\<lambda>sg. case sg of Key k \<Rightarrow> the (map_of kvs k) | Idx i \<Rightarrow> JNull"
  let ?g = "\<lambda>sg. map_strings (translated_value h M) (?c sg)"
  let ?sgs = "map (Key \<circ> fst) kvs"
  have d: "distinct ?sgs" using dist by (simp add: distinct_map inj_on_def flip: map_map)
  have ch: "child_at (JObject kvs) sg = Some (?c sg)" if a: "sg \<in> set ?sgs" for sg
  proof -
    obtain k v where "sg = Key k" "(k, v) \<in> set kvs" using a by auto
    then show ?thesis using map_of_distinct_mem [OF dist] by simp
  qed
  have st: "?F r (loc @ [sg]) = Some (Inr (put_at r (loc @ [sg]) (?g sg)))"
    if a: "sg \<in> set ?sgs" and b: "get_at r (loc @ [sg]) = Some (?c sg)" for sg r
  proof -
    obtain k v where kv: "sg = Key k" "(k, v) \<in> set kvs" using a by auto
    have mo: "map_of kvs k = Some v" using map_of_distinct_mem [OF dist kv(2)] .
    have dp: "depth v \<le> n" using depth_obj_child [OF kv(2)] JObject.prems(2) fuel by simp
    have nb: "\<not> bracketed k" using JObject.prems(5) kv(2) by (auto simp: list_all_iff)
    have pl: "plain_loc (loc @ [Key k])" using JObject.prems(3) nb by (auto simp: plain_loc_def)
    have dk: "distinct_keys v" "plain_keys v"
      using JObject.prems(4,5) kv(2) by (auto simp: list_all_iff)
    have src: "map_of spm (flat_path (map seg_str ((loc @ [Key k]) @ q))) = Some s"
      if c: "get_at v q = Some (JString s)" for q s
      using JObject.prems(7) [of "Key k # q" s] c mo by simp
    have "v \<in> Basic_BNFs.snds (k, v)" by simp
    from JObject.IH [OF kv(2) this _ dp pl dk _ src, of r]
    show ?thesis using b kv(1) mo by simp
  qed
  have "fold (\<lambda>sg acc. case acc of Some (Inr cur) \<Rightarrow> ?F cur (loc @ [sg]) | _ \<Rightarrow> acc) ?sgs (Some (Inr root))
        = Some (Inr (put_at root loc (fold (\<lambda>sg u. put_child u sg (?g sg)) ?sgs (JObject kvs))))"
    using d JObject.prems(1) ch st by (rule walk_children)
  moreover have "fold (\<lambda>sg u. put_child u sg (?g sg)) ?sgs (JObject kvs)
                 = map_strings (translated_value h M) (JObject kvs)"
  proof -
    have "map (\<lambda>(k, v). (k, ?g (Key k))) kvs
          = map (\<lambda>(k, v). (k, map_strings (translated_value h M) v)) kvs"
      using map_of_distinct_mem [OF dist] by (auto intro!: map_cong)
    then show ?thesis using fold_put_keys [of "[]" kvs ?g] dist by simp
  qed
  ultimately show ?case
    using JObject.prems(1) by (simp add: fuel fold_map comp_def)
qed

subsection \<open>The flattened paths\<close>

lemma flat_entries_mem:
  "get_at t q = Some (JString s) \<Longrightarrow>
   (flat_path (path @ map seg_str q), s) \<in> set (flat_entries t path)"
proof (induction q arbitrary: t path)
  case Nil
  then show ?case by simp
next
  case (Cons sg q)
  then obtain ch where ch: "child_at t sg = Some ch" "get_at ch q = Some (JString s)"
    by (auto split: option.splits)
  show ?case
  proof (cases "(t, sg)" rule: child_at.cases)
    case (1 kvs k)
    then have mem: "(k, ch) \<in> set kvs" using ch(1) by (auto dest: map_of_SomeD)
    have "(flat_path ((path @ [k]) @ map seg_str q), s) \<in> set (flat_entries ch (path @ [k]))"
      using Cons.IH [OF ch(2)] .
    then show ?thesis using 1 mem by force
  next
    case (2 xs i)
    then have i: "i < length xs" "ch = xs ! i" using ch(1) by (auto split: if_splits)
    then have mem: "(i, ch) \<in> set (zip [0 ..< length xs] xs)"
      by (auto simp: set_zip intro!: exI [of _ i])
    have "(flat_path ((path @ [seg_str (Idx i)]) @ map seg_str q), s)
          \<in> set (flat_entries ch (path @ [seg_str (Idx i)]))"
      using Cons.IH [OF ch(2)] .
    then show ?thesis using 2 mem by force
  qed (use ch(1) in auto)
qed

lemma update_fresh: "k \<notin> fst ` set acc \<Longrightarrow> AList.update k v acc = acc @ [(k, v)]"
  by (induction acc) auto

lemma fold_update_distinct:
  "distinct (map fst (acc @ es)) \<Longrightarrow>
   fold (\<lambda>(k, v) m. AList.update k v m) es acc = acc @ es"
proof (induction es arbitrary: acc)
  case Nil
  then show ?case by simp
next
  case (Cons e es)
  obtain k v where e: "e = (k, v)" by (cases e)
  have fresh: "k \<notin> fst ` set acc" using Cons.prems e by auto
  have "distinct (map fst ((acc @ [(k, v)]) @ es))" using Cons.prems e by simp
  from Cons.IH [OF this] show ?case by (simp add: e update_fresh [OF fresh])
qed

lemma flatten_distinct:
  "distinct (map fst (flat_entries D [])) \<Longrightarrow> flattenObjectWithPaths D = flat_entries D []"
  unfolding flattenObjectWithPaths_def using fold_update_distinct [of "[]"] by simp

lemma rebuild_exact:
  assumes "distinct_keys D" "plain_keys D" "distinct (map fst (flat_entries D []))"
      and "\<forall>s. D \<noteq> JString s"
  shows "rebuild h (flattenObjectWithPaths D) M D
         = Some (Inr (map_strings (translated_value h M) D))"
proof -
  have src: "map_of (flattenObjectWithPaths D) (flat_path (map seg_str ([] @ q))) = Some s"
    if a: "get_at D q = Some (JString s)" for q s
    using flat_entries_mem [OF a, of "[]"] assms(3)
    by (simp add: flatten_distinct [OF assms(3)])
  have "applyTranslations (depth D) h (flattenObjectWithPaths D) M D []
        = Some (Inr (put_at D [] (map_strings (translated_value h M) D)))"
    by (rule apply_exact) (use assms src in \<open>simp_all add: plain_loc_def\<close>)
  then show ?thesis by (simp add: rebuild_def)
qed

lemma map_strings_id: "map_strings (\<lambda>s. s) t = t"
proof (induction t)
  case (JArray xs)
  then show ?case by (simp add: map_idI)
next
  case (JObject kvs)
  have "map (\<lambda>(k, v). (k, map_strings (\<lambda>s. s) v)) kvs = kvs"
    by (rule map_idI) (use JObject in force)
  then show ?case by simp
qed simp_all

lemma rebuild_empty:
  assumes "distinct_keys D" "plain_keys D" "distinct (map fst (flat_entries D []))"
      and "\<forall>s. D \<noteq> JString s"
  shows "rebuild h (flattenObjectWithPaths D) Map.empty D = Some (Inr D)"
proof -
  have "translated_value h Map.empty = (\<lambda>s. s)"
    by (intro ext) (simp add: translated_value_def)
  then show ?thesis using rebuild_exact [OF assms, of h Map.empty] by (simp add: map_strings_id)
qed

subsection \<open>Rebuilding the examples\<close>

lemma flatten_docC [simp]: "flattenObjectWithPaths docC = [(''[0]'', ''Hello''), (''a'', ''Hello'')]"
  by (simp add: flattenObjectWithPaths_def docC_def flat_path_def escape_dots_def)

lemma flatten_docD [simp]: "flattenObjectWithPaths docD = [(''0'', ''Hello''), (''[0]'', ''Bye'')]"
  by (simp add: flattenObjectWithPaths_def docD_def flat_path_def escape_dots_def)

lemma rebuild_docC:
  "rebuild (hashString exHelpers) [(''[0]'', ''Hello''), (''a'', ''Hello'')] [''#Hello'' \<mapsto> ''es:Hello''] docC
   = Some (Inr (JObject [(''0'', JString ''es:Hello''), (''[0]'', JString ''Hello''),
                         (''a'', JString ''es:Hello'')]))"
  by (simp add: rebuild_eval docC_def)

lemma rebuild_docD:
  "rebuild (hashString exHelpers) [(''0'', ''Hello''), (''[0]'', ''Bye'')] [''#Bye'' \<mapsto> ''Adios''] docD
   = Some (Inr (JObject [(''0'', JString ''Adios''), (''[0]'', JString ''Bye'')]))"
  by (simp add: rebuild_eval docD_def)


section \<open>Strings shared between documents\<close>

subsection \<open>The files listed for a string\<close>

lemma set_add_set: "set (set_add x xs) = insert x (set xs)"
  by (auto simp: set_add_def)

lemma addString_distinct:
  assumes "distinct (map fst gm)"
  shows "distinct (map fst (addString f s gm))"
proof (cases "map_of gm s")
  case None
  then have "s \<notin> fst ` set gm" by (simp add: map_of_eq_None_iff)
  then show ?thesis using assms None by (simp add: addString_def)
next
  case (Some files)
  then show ?thesis using assms by (simp add: addString_def distinct_update)
qed

lemma addString_listed: "listed (addString f s gm) s f"
proof (cases "map_of gm s")
  case None
  then show ?thesis by (simp add: listed_def addString_def map_add_def)
next
  case (Some files)
  then show ?thesis by (simp add: listed_def addString_def update_conv' set_add_set)
qed

lemma addString_mono:
  assumes "listed gm s' f'"
  shows "listed (addString f s gm) s' f'"
proof -
  obtain files' where f': "map_of gm s' = Some files'" "f' \<in> set files'"
    using assms by (auto simp: listed_def split: option.splits)
  show ?thesis
  proof (cases "map_of gm s")
    case None
    have "map_of (gm @ [(s, [f])]) s' = Some files'"
      using f'(1) by (simp add: map_add_Some_iff)
    then show ?thesis using None f'(2) by (simp add: listed_def addString_def del: map_of_append)
  next
    case (Some files)
    show ?thesis
    proof (cases "s' = s")
      case True
      then have "files' = files" using Some f'(1) by simp
      then show ?thesis using Some f'(2) True
        by (simp add: listed_def addString_def update_conv' set_add_set)
    next
      case False
      then show ?thesis using Some f'
        by (simp add: listed_def addString_def update_conv')
    qed
  qed
qed

lemma fold_addString_distinct:
  "distinct (map fst gm) \<Longrightarrow> distinct (map fst (fold (addString f) strs gm))"
  by (induction strs arbitrary: gm) (simp_all add: addString_distinct)

lemma fold_addString_mono:
  "listed gm s' f' \<Longrightarrow> listed (fold (addString f) strs gm) s' f'"
  by (induction strs arbitrary: gm) (simp_all add: addString_mono)

lemma fold_addString_listed:
  "s \<in> set strs \<Longrightarrow> listed (fold (addString f) strs gm) s f"
proof (induction strs arbitrary: gm)
  case Nil
  then show ?case by simp
next
  case (Cons a strs)
  show ?case
  proof (cases "s = a")
    case True
    then show ?thesis using fold_addString_mono [OF addString_listed] by simp
  next
    case False
    then show ?thesis using Cons by simp
  qed
qed

lemma collectFile_snd:
  "snd (collectFile H fs opts f (fdm, gm))
   = (case readDocument H fs f of
        None \<Rightarrow> gm
      | Some d \<Rightarrow> fold (addString f) (map snd (flattenObjectWithPaths d)) gm)"
  by (simp add: collectFile_def Let_def split: option.splits)

lemma collectFile_distinct:
  "distinct (map fst (snd st)) \<Longrightarrow> distinct (map fst (snd (collectFile H fs opts f st)))"
  by (cases st; cases "readDocument H fs f") (simp_all add: collectFile_snd fold_addString_distinct)

lemma collectFile_mono:
  "listed (snd st) s' f' \<Longrightarrow> listed (snd (collectFile H fs opts f st)) s' f'"
  by (cases st; cases "readDocument H fs f") (simp_all add: collectFile_snd fold_addString_mono)

lemma collectFile_listed:
  assumes "readDocument H fs f = Some d" "s \<in> snd ` set (flattenObjectWithPaths d)"
  shows "listed (snd (collectFile H fs opts f st)) s f"
proof -
  have "s \<in> set (map snd (flattenObjectWithPaths d))" using assms(2) by simp
  then show ?thesis using assms(1)
    by (cases st) (simp add: collectFile_snd fold_addString_listed del: set_map)
qed

lemma collect_distinct:
  "distinct (map fst (snd st)) \<Longrightarrow>
   distinct (map fst (snd (fold (collectFile H fs opts) files st)))"
  by (induction files arbitrary: st) (simp_all add: collectFile_distinct)

lemma collect_mono:
  "listed (snd st) s' f' \<Longrightarrow> listed (snd (fold (collectFile H fs opts) files st)) s' f'"
  by (induction files arbitrary: st) (simp_all add: collectFile_mono)

lemma collect_listed:
  "f \<in> set files \<Longrightarrow> readDocument H fs f = Some d \<Longrightarrow>
   s \<in> snd ` set (flattenObjectWithPaths d) \<Longrightarrow>
   listed (snd (fold (collectFile H fs opts) files st)) s f"
proof (induction files arbitrary: st)
  case Nil
  then show ?case by simp
next
  case (Cons a files)
  show ?case
  proof (cases "f = a")
    case True
    have "listed (snd (collectFile H fs opts a st)) s f"
      using collectFile_listed [OF Cons.prems(2,3)] True by simp
    then show ?thesis using collect_mono by simp
  next
    case False
    then show ?thesis using Cons by simp
  qed
qed

subsection \<open>Hits and misses\<close>

lemma foundIn_None:
  "foundIn c l h files = None \<longleftrightarrow> (\<forall>fl \<in> set files. \<not> cached (langCacheOf c fl l) h)"
proof (cases "filter (\<lambda>fl. cached (langCacheOf c fl l) h) files")
  case Nil
  then show ?thesis by (simp add: foundIn_def filter_empty_conv)
next
  case (Cons fl rest)
  then have "fl \<in> set (filter (\<lambda>fl. cached (langCacheOf c fl l) h) files)" by simp
  then have m: "fl \<in> set files" "cached (langCacheOf c fl l) h" by simp_all
  then have "langCacheOf c fl l h \<noteq> None" by (auto simp: cached_def split: option.splits)
  then show ?thesis using Cons m by (auto simp: foundIn_def)
qed

lemma foundIn_Some:
  assumes "foundIn c l h files = Some t"
  shows "\<exists>fl \<in> set files. langCacheOf c fl l h = Some t \<and> t \<noteq> []"
proof (cases "filter (\<lambda>fl. cached (langCacheOf c fl l) h) files")
  case Nil
  then show ?thesis using assms by (simp add: foundIn_def)
next
  case (Cons fl rest)
  then have "fl \<in> set (filter (\<lambda>fl. cached (langCacheOf c fl l) h) files)" by simp
  then have m: "fl \<in> set files" "cached (langCacheOf c fl l) h" by simp_all
  moreover have "langCacheOf c fl l h = Some t" using assms Cons by (simp add: foundIn_def)
  ultimately show ?thesis by (auto simp: cached_def)
qed

lemma globalMisses_set:
  "str \<in> set (globalMisses H c l gm)
   \<longleftrightarrow> (\<exists>files. (str, files) \<in> set gm \<and> foundIn c l (hashString H str) files = None)"
  unfolding globalMisses_def by (induction gm) auto

lemma globalMisses_distinct:
  "distinct (map fst gm) \<Longrightarrow> distinct (globalMisses H c l gm)"
  by (simp add: globalMisses_def distinct_map_filter)

lemma globalHits_at:
  assumes "distinct (map fst es)" "inj_on (hashString H) (insert str (fst ` set es))"
  shows "fold (\<lambda>(s, files) m. case foundIn c l (hashString H s) files of
                                  None \<Rightarrow> m | Some t \<Rightarrow> m(hashString H s \<mapsto> t)) es m (hashString H str)
         = (case map_of es str of
              None \<Rightarrow> m (hashString H str)
            | Some files \<Rightarrow> (case foundIn c l (hashString H str) files of
                               None \<Rightarrow> m (hashString H str) | Some t \<Rightarrow> Some t))"
  using assms
proof (induction es arbitrary: m)
  case Nil
  then show ?case by simp
next
  case (Cons e es)
  obtain s files where e: "e = (s, files)" by (cases e)
  have d: "distinct (map fst es)" and i: "inj_on (hashString H) (insert str (fst ` set es))"
    using Cons.prems by (auto simp: inj_on_def)
  show ?case
  proof (cases "s = str")
    case True
    then have "map_of es str = None" using Cons.prems(1) e by (auto simp: map_of_eq_None_iff)
    then show ?thesis using Cons.IH [OF d i] e True by (simp split: option.splits)
  next
    case False
    then have "hashString H s \<noteq> hashString H str"
      using Cons.prems(2) e by (auto simp: inj_on_def)
    then show ?thesis using Cons.IH [OF d i] e False by (simp split: option.splits)
  qed
qed

subsection \<open>The batches partition the misses\<close>

lemma concat_slices:
  "0 < k \<Longrightarrow> concat (map (\<lambda>i. take k (drop (i * k) xs)) [0 ..< m]) = take (m * k) xs"
proof (induction m)
  case 0
  then show ?case by simp
next
  case (Suc m)
  have "take (m * k) xs @ take k (drop (m * k) xs) = take (m * k + k) xs"
    by (simp add: take_add)
  then show ?case using Suc by (simp add: add.commute)
qed

lemma multi_file_batches_concat: "concat (multi_file_batches xs) = xs"
proof -
  let ?n = "length xs" and ?m = "numBatches (length xs)"
  have k: "0 < MAX_BATCH_SIZE" by (simp add: MAX_BATCH_SIZE_def)
  have sl: "slice xs (i * MAX_BATCH_SIZE) (min (i * MAX_BATCH_SIZE + MAX_BATCH_SIZE) ?n)
            = take MAX_BATCH_SIZE (drop (i * MAX_BATCH_SIZE) xs)" for i
    by (cases "i * MAX_BATCH_SIZE + MAX_BATCH_SIZE \<le> ?n") (simp_all add: slice_def min_def)
  have "concat (multi_file_batches xs) = take (?m * MAX_BATCH_SIZE) xs"
    unfolding multi_file_batches_def Let_def sl by (rule concat_slices [OF k])
  moreover have "?n \<le> ?m * MAX_BATCH_SIZE"
    unfolding numBatches_def using ceil_div_upper [OF k] by simp
  ultimately show ?thesis by simp
qed

lemma single_file_batches_concat: "concat (single_file_batches xs) = xs"
proof (cases "xs = []")
  case True
  then show ?thesis by (simp add: single_file_batches_def batch_loop.simps)
next
  case False
  then have "0 < dynamicBatchSize (length xs)" by (simp add: dynamicBatchSize_pos)
  then have "concat (batch_loop xs (dynamicBatchSize (length xs)) 0) = drop 0 xs"
    by (rule batch_loop_concat)
  then show ?thesis by (simp add: single_file_batches_def)
qed

subsection \<open>The entries of a batch result\<close>

lemma update_keys: "fst ` set (AList.update k v al) = insert k (fst ` set al)"
  by (induction al) auto

lemma translateBatch_fold_keys:
  "fst ` set (fold (\<lambda>(original, index) m. if P index then AList.update original (V original index) m else m) ps acc)
   \<subseteq> fst ` set acc \<union> fst ` set ps"
proof (induction ps arbitrary: acc)
  case Nil
  then show ?case by simp
next
  case (Cons p ps)
  obtain orig idx where p: "p = (orig, idx)" by (cases p)
  show ?case using Cons [of "if P idx then AList.update orig (V orig idx) acc else acc"]
    by (auto simp: p update_keys split: if_splits)
qed

lemma translateBatch_fold_distinct:
  "distinct (map fst acc) \<Longrightarrow>
   distinct (map fst (fold (\<lambda>(original, index) m. if P index then AList.update original (V original index) m else m) ps acc))"
proof (induction ps arbitrary: acc)
  case Nil
  then show ?case by simp
next
  case (Cons p ps)
  obtain orig idx where p: "p = (orig, idx)" by (cases p)
  show ?case using Cons.IH [of "if P idx then AList.update orig (V orig idx) acc else acc"] Cons.prems
    by (simp add: p distinct_update)
qed

lemma translateBatch_keys:
  "fst ` set (translateBatch H T strings tgtl srcl pf ctxt) \<subseteq> set strings"
proof (cases "translate T (processedStrings H pf strings) tgtl srcl ctxt")
  case None
  then show ?thesis by (simp add: translateBatch_def)
next
  case (Some trs)
  have a: "fst ` set (zip strings [0 ..< length strings]) \<subseteq> set strings"
    by (auto dest: set_zip_leftD)
  have b: "fst ` set (fold (\<lambda>(original, index) m.
              if index < length trs \<and> trs ! index \<noteq> []
              then AList.update original
                  (if pf then restoreFormats H (trs ! index) (preserveFormats H original)
                   else trs ! index) m
              else m) (zip strings [0 ..< length strings]) [])
        \<subseteq> fst ` set (zip strings [0 ..< length strings])"
    using translateBatch_fold_keys
      [of "\<lambda>index. index < length trs \<and> trs ! index \<noteq> []"
          "\<lambda>original index. if pf then restoreFormats H (trs ! index) (preserveFormats H original)
                             else trs ! index"
          "zip strings [0 ..< length strings]" "[]"] by simp
  have c: "fst ` set (translateBatch H T strings tgtl srcl pf ctxt)
        \<subseteq> fst ` set (zip strings [0 ..< length strings])"
    using b unfolding translateBatch_def Some option.case by simp
  show ?thesis by (rule subset_trans [OF c a])
qed

lemma translateBatch_distinct:
  "distinct (map fst (translateBatch H T strings tgtl srcl pf ctxt))"
proof (cases "translate T (processedStrings H pf strings) tgtl srcl ctxt")
  case None
  then show ?thesis by (simp add: translateBatch_def)
next
  case (Some trs)
  show ?thesis
    using translateBatch_fold_distinct
      [of "[]" "\<lambda>index. index < length trs \<and> trs ! index \<noteq> []"
          "\<lambda>original index. if pf then restoreFormats H (trs ! index) (preserveFormats H original)
                             else trs ! index"
          "zip strings [0 ..< length strings]"]
    unfolding translateBatch_def Some option.case by simp
qed

lemma results_keys:
  "fst ` set (concat (map (\<lambda>b. translateBatch H T b tgtl srcl pf ctxt) bs)) \<subseteq> set (concat bs)"
proof (induction bs)
  case Nil
  then show ?case by simp
next
  case (Cons b bs)
  have a: "fst ` set (translateBatch H T b tgtl srcl pf ctxt) \<subseteq> set b"
    by (rule translateBatch_keys)
  have e: "fst ` set (concat (map (\<lambda>b. translateBatch H T b tgtl srcl pf ctxt) (b # bs)))
        = fst ` set (translateBatch H T b tgtl srcl pf ctxt)
          \<union> fst ` set (concat (map (\<lambda>b. translateBatch H T b tgtl srcl pf ctxt) bs))"
    by (simp only: list.map concat.simps set_append image_Un)
  have s: "set (concat (b # bs)) = set b \<union> set (concat bs)"
    by (simp only: concat.simps set_append)
  show ?case unfolding e s using a Cons.IH by (rule Un_mono)
qed

lemma results_distinct:
  "distinct (concat bs) \<Longrightarrow>
   distinct (map fst (concat (map (\<lambda>b. translateBatch H T b tgtl srcl pf ctxt) bs)))"
proof (induction bs)
  case Nil
  then show ?case by simp
next
  case (Cons b bs)
  have a: "fst ` set (translateBatch H T b tgtl srcl pf ctxt) \<subseteq> set b"
    by (rule translateBatch_keys)
  have b: "fst ` set (concat (map (\<lambda>b. translateBatch H T b tgtl srcl pf ctxt) bs)) \<subseteq> set (concat bs)"
    by (rule results_keys)
  have c: "set b \<inter> set (concat bs) = {}" using Cons.prems by simp
  have "fst ` set (translateBatch H T b tgtl srcl pf ctxt) \<inter>
        fst ` set (concat (map (\<lambda>b. translateBatch H T b tgtl srcl pf ctxt) bs)) = {}"
    using a b c by blast
  moreover have "distinct (concat bs)" using Cons.prems by simp
  ultimately show ?case
    using Cons.IH translateBatch_distinct [of H T b tgtl srcl pf ctxt]
    by (simp del: set_concat)
qed

subsection \<open>Merging the results\<close>

lemma merge_at:
  assumes "inj_on (hashString H) (insert str (fst ` set es))" "distinct (map fst es)"
  shows "fold (\<lambda>(original, translated) m. m(hashString H original \<mapsto> translated)) es m (hashString H str)
         = (case map_of es str of None \<Rightarrow> m (hashString H str) | Some t \<Rightarrow> Some t)"
  using assms
proof (induction es arbitrary: m)
  case Nil
  then show ?case by simp
next
  case (Cons e es)
  obtain s t where e: "e = (s, t)" by (cases e)
  have i: "inj_on (hashString H) (insert str (fst ` set es))" and d: "distinct (map fst es)"
    using Cons.prems by (auto simp: inj_on_def)
  show ?case
  proof (cases "s = str")
    case True
    then have "map_of es str = None" using Cons.prems(2) e by (auto simp: map_of_eq_None_iff)
    then show ?thesis using Cons.IH [OF i d] e True by simp
  next
    case False
    then have "hashString H s \<noteq> hashString H str"
      using Cons.prems(1) e by (auto simp: inj_on_def)
    then show ?thesis using Cons.IH [OF i d] e False by simp
  qed
qed

subsection \<open>Recording in the cache\<close>

lemma langCacheOf_cacheRecord:
  "langCacheOf (cacheRecord c fl l h v) fl' l' h'
   = (if fl' = fl \<and> l' = l \<and> h' = h then Some v else langCacheOf c fl' l' h')"
  by (simp add: langCacheOf_def cacheRecord_def Let_def split: option.splits)

lemma record_files_keep:
  "langCacheOf c f l h = Some t \<Longrightarrow>
   langCacheOf (fold (\<lambda>fl c. cacheRecord c fl l h t) files c) f l h = Some t"
  by (induction files arbitrary: c) (simp_all add: langCacheOf_cacheRecord)

lemma record_files_other:
  "h' \<noteq> h \<Longrightarrow>
   langCacheOf (fold (\<lambda>fl c. cacheRecord c fl l h' t') files c) f l h = langCacheOf c f l h"
  by (induction files arbitrary: c) (simp_all add: langCacheOf_cacheRecord)

lemma record_files_set:
  "f \<in> set files \<Longrightarrow>
   langCacheOf (fold (\<lambda>fl c. cacheRecord c fl l h t) files c) f l h = Some t"
proof (induction files arbitrary: c)
  case Nil
  then show ?case by simp
next
  case (Cons a files)
  show ?case
  proof (cases "f = a")
    case True
    then show ?thesis using record_files_keep [of "cacheRecord c a l h t" a l h t files]
      by (simp add: langCacheOf_cacheRecord)
  next
    case False
    then show ?thesis using Cons by simp
  qed
qed

lemma updateCache_keep:
  assumes "gt h = Some t" "langCacheOf c f l h = Some t"
  shows "langCacheOf (updateCache H l gt es c) f l h = Some t"
  using assms(2) unfolding updateCache_def
proof (induction es arbitrary: c)
  case Nil
  then show ?case by simp
next
  case (Cons e es)
  obtain s files where e: "e = (s, files)" by (cases e)
  show ?case
  proof (cases "gt (hashString H s)")
    case None
    then show ?thesis using Cons e by simp
  next
    case (Some t')
    have "langCacheOf (fold (\<lambda>fl c. cacheRecord c fl l (hashString H s) t') files c) f l h = Some t"
    proof (cases "hashString H s = h")
      case True
      then have "t' = t" using Some assms(1) by simp
      then show ?thesis using True record_files_keep [OF Cons.prems] by simp
    next
      case False
      then show ?thesis
        using record_files_other [where h = h and h' = "hashString H s" and t' = t'
            and l = l and files = files and c = c and f = f] Cons.prems by simp
    qed
    then show ?thesis using Cons.IH e Some by simp
  qed
qed

lemma updateCache_recorded:
  assumes "(str, files) \<in> set es" "f \<in> set files" "gt (hashString H str) = Some t"
  shows "langCacheOf (updateCache H l gt es c) f l (hashString H str) = Some t"
  using assms(1)
proof (induction es arbitrary: c)
  case Nil
  then show ?case by simp
next
  case (Cons e es)
  show ?case
  proof (cases "e = (str, files)")
    case True
    let ?c' = "fold (\<lambda>fl c. cacheRecord c fl l (hashString H str) t) files c"
    have "langCacheOf ?c' f l (hashString H str) = Some t"
      using record_files_set [OF assms(2)] by simp
    then have "langCacheOf (updateCache H l gt es ?c') f l (hashString H str) = Some t"
      using updateCache_keep [where gt = gt and h = "hashString H str" and t = t and c = "?c'"
          and f = f and l = l and H = H and es = es] assms(3) by blast
    then show ?thesis using True assms(3) by (simp add: updateCache_def)
  next
    case False
    then have "(str, files) \<in> set es" using Cons.prems by simp
    from Cons.IH [OF this] show ?thesis
      by (cases e) (simp add: updateCache_def split: option.splits)
  qed
qed


section \<open>Persisting the cache\<close>

subsection \<open>The calls of saveCache\<close>

lemma fs_put_put [simp]: "fs_put (fs_put fs p a) p b = fs_put fs p b"
  by (simp add: fs_put_def)

lemma exec_append:
  "exec H (xs @ ys) fs
   = (if snd (exec H xs fs) then exec H ys (fst (exec H xs fs)) else exec H xs fs)"
  by (induction xs arbitrary: fs) (simp_all split: option.splits)

lemma exec_appends:
  "exec H (map (\<lambda>c. Append p [c]) cs) (fs_put fs p (Text old)) = (fs_put fs p (Text (old @ cs)), True)"
proof (induction cs arbitrary: old)
  case Nil
  then show ?case by simp
next
  case (Cons c cs)
  have "exec H (map (\<lambda>c. Append p [c]) (c # cs)) (fs_put fs p (Text old))
        = exec H (map (\<lambda>c. Append p [c]) cs) (fs_put fs p (Text (old @ [c])))"
    by simp
  then show ?case using Cons [of "old @ [c]"] by simp
qed

lemma mkdirs_inv:
  assumes "\<forall>q. node fs q = node fs0 q \<or> node fs0 q = Missing \<and> node fs q = Directory"
      and "write_denied fs = write_denied fs0"
  shows "(\<forall>q. node (fst (exec H (map Mkdir ds) fs)) q = node fs0 q
             \<or> node fs0 q = Missing \<and> node (fst (exec H (map Mkdir ds) fs)) q = Directory)
       \<and> write_denied (fst (exec H (map Mkdir ds) fs)) = write_denied fs0"
  using assms
proof (induction ds arbitrary: fs)
  case Nil
  then show ?case by simp
next
  case (Cons d ds)
  show ?case
  proof (cases "fs_step H fs (Mkdir d)")
    case None
    then show ?thesis using Cons.prems by simp
  next
    case (Some fs1)
    have 1: "\<forall>q. node fs1 q = node fs0 q \<or> node fs0 q = Missing \<and> node fs1 q = Directory"
    proof
      fix q
      show "node fs1 q = node fs0 q \<or> node fs0 q = Missing \<and> node fs1 q = Directory"
      proof (cases "node fs d")
        case Missing
        then have fs1: "fs1 = fs_put fs d Directory" using Some by (simp split: if_splits)
        have "node fs0 d = Missing" using Cons.prems(1) Missing by (metis file_state.distinct(3))
        then show ?thesis using Cons.prems(1) fs1 by simp
      next
        case Directory
        then have "fs1 = fs" using Some by simp
        then show ?thesis using Cons.prems(1) by simp
      next
        case Unreadable
        then show ?thesis using Some by simp
      next
        case (Text x)
        then show ?thesis using Some by simp
      qed
    qed
    have 2: "write_denied fs1 = write_denied fs0"
      using Some Cons.prems(2) by (cases "node fs d") (auto split: if_splits)
    show ?thesis using Cons.IH [OF 1 2] Some by simp
  qed
qed

lemma ensureCacheDirectory_mkdirs: "\<exists>ds. ensureCacheDirectory H fs p = map Mkdir ds"
proof (cases "node fs (pathDirname H p) = Missing \<or> node fs (pathDirname H p) = Unreadable")
  case True
  then show ?thesis by (auto simp: ensureCacheDirectory_def Let_def)
next
  case False
  then have "ensureCacheDirectory H fs p = map Mkdir []" by (simp add: ensureCacheDirectory_def Let_def)
  then show ?thesis by blast
qed

text \<open>
  Every state that a call of saveCache passes through: a path holds what it held
  before, or it was absent and is now a directory, or it is the cache file and holds
  the first \<open>k\<close> characters of the new text.
\<close>

lemma saveCache_states:
  fixes H :: "'p helpers" and fs :: file_system and cache :: TranslationCache
    and p :: string and n :: nat
  defines "fs' \<equiv> fs_after H n (saveCache H fs cache p) fs"
  shows "write_denied fs' = write_denied fs"
    and "node fs' q = node fs q \<or> node fs q = Missing \<and> node fs' q = Directory
         \<or> q = p \<and> (\<exists>k \<le> length (stringifyCache H cache). node fs' q = Text (take k (stringifyCache H cache)))"
proof -
  let ?data = "stringifyCache H cache"
  obtain ds where mk: "ensureCacheDirectory H fs p = map Mkdir ds"
    using ensureCacheDirectory_mkdirs by blast
  let ?apps = "map (\<lambda>c. Append p [c]) ?data"
  have ops: "saveCache H fs cache p = map Mkdir ds @ OpenTruncate p # ?apps"
    by (simp add: saveCache_def mk)
  have inv0: "\<forall>q. node fs q = node fs q \<or> node fs q = Missing \<and> node fs q = Directory" by simp
  note inv = mkdirs_inv [OF inv0 refl, of H]
  have "write_denied fs' = write_denied fs
      \<and> (node fs' q = node fs q \<or> node fs q = Missing \<and> node fs' q = Directory
         \<or> q = p \<and> (\<exists>k \<le> length ?data. node fs' q = Text (take k ?data)))"
  proof (cases "n \<le> length ds")
    case True
    then have "take n (saveCache H fs cache p) = map Mkdir (take n ds)"
      by (simp add: ops take_map)
    then have "fs' = fst (exec H (map Mkdir (take n ds)) fs)"
      by (simp add: fs'_def fs_after_def)
    then show ?thesis using inv [of "take n ds"] by blast
  next
    case False
    define k where "k = n - length ds - 1"
    have n: "n = length ds + Suc k" using False by (simp add: k_def)
    have t: "take n (saveCache H fs cache p)
             = map Mkdir ds @ OpenTruncate p # map (\<lambda>c. Append p [c]) (take k ?data)"
      by (simp add: ops n take_map)
    let ?fs1 = "fst (exec H (map Mkdir ds) fs)"
    show ?thesis
    proof (cases "snd (exec H (map Mkdir ds) fs)")
      case False
      then have "fs' = ?fs1" by (simp add: fs'_def fs_after_def t exec_append)
      then show ?thesis using inv [of ds] by blast
    next
      case True
      show ?thesis
      proof (cases "fs_step H ?fs1 (OpenTruncate p)")
        case None
        then have "fs' = ?fs1" using True
          by (simp add: fs'_def fs_after_def t exec_append del: fs_step.simps)
        then show ?thesis using inv [of ds] by blast
      next
        case (Some fs2)
        then have fs2: "fs2 = fs_put ?fs1 p (Text [])"
          by (cases "node ?fs1 p") (auto split: if_splits)
        have e: "fs' = fs_put ?fs1 p (Text (take k ?data))"
          using True Some exec_appends [of H p "take k ?data" ?fs1 "[]"]
          by (simp add: fs'_def fs_after_def t exec_append fs2 del: fs_step.simps)
        have m: "take k ?data = take (min k (length ?data)) ?data" by (simp add: min_def)
        have w: "write_denied fs' = write_denied fs" using inv [of ds] by (simp add: e)
        show ?thesis
        proof (cases "q = p")
          case True
          have "node fs' p = Text (take (min k (length ?data)) ?data)"
            using m by (simp add: e)
          moreover have "min k (length ?data) \<le> length ?data" by simp
          ultimately show ?thesis using w True by blast
        next
          case False
          then have "node fs' q = node ?fs1 q" by (simp add: e)
          then show ?thesis using w inv [of ds] by metis
        qed
      qed
    qed
  qed
  then show "write_denied fs' = write_denied fs"
    and "node fs' q = node fs q \<or> node fs q = Missing \<and> node fs' q = Directory
         \<or> q = p \<and> (\<exists>k \<le> length ?data. node fs' q = Text (take k ?data))"
    by simp_all
qed

text \<open>
  A call that is not rejected: once the file is open, the state after \<open>k\<close> pieces
  holds the first \<open>k\<close> characters of the new text, and the last state all of it.
\<close>

lemma saveCache_progress:
  fixes H :: "'p helpers"
  assumes "\<not> saveCacheRejects H fs cache p" "k \<le> length (stringifyCache H cache)"
  shows "node (fs_after H (length (ensureCacheDirectory H fs p) + 1 + k) (saveCache H fs cache p) fs) p
         = Text (take k (stringifyCache H cache))"
proof -
  let ?data = "stringifyCache H cache"
  let ?mk = "ensureCacheDirectory H fs p"
  let ?fs1 = "fst (exec H ?mk fs)"
  have ops: "saveCache H fs cache p = ?mk @ OpenTruncate p # map (\<lambda>c. Append p [c]) ?data"
    by (simp add: saveCache_def)
  have acc: "snd (exec H (?mk @ OpenTruncate p # map (\<lambda>c. Append p [c]) ?data) fs)"
    using assms(1) by (simp add: saveCacheRejects_def ops)
  then have mk: "snd (exec H ?mk fs)"
    by (simp add: exec_append split: if_splits)
  obtain fs2 where op: "fs_step H ?fs1 (OpenTruncate p) = Some fs2"
    using acc mk
    by (cases "fs_step H ?fs1 (OpenTruncate p)") (simp_all add: exec_append del: fs_step.simps)
  then have fs2: "fs2 = fs_put ?fs1 p (Text [])"
    by (cases "node ?fs1 p") (auto split: if_splits)
  have t: "take (length ?mk + 1 + k) (saveCache H fs cache p)
           = ?mk @ OpenTruncate p # map (\<lambda>c. Append p [c]) (take k ?data)"
    by (simp add: ops take_map)
  have "fs_after H (length ?mk + 1 + k) (saveCache H fs cache p) fs
        = fst (exec H (?mk @ OpenTruncate p # map (\<lambda>c. Append p [c]) (take k ?data)) fs)"
    by (simp only: fs_after_def t)
  also have "\<dots> = fs_put ?fs1 p (Text (take k ?data))"
    using mk op exec_appends [of H p "take k ?data" ?fs1 "[]"]
    by (simp add: exec_append fs2 del: fs_step.simps)
  finally show ?thesis by simp
qed

lemma saveCache_length:
  "length (saveCache H fs cache p)
   = length (ensureCacheDirectory H fs p) + 1 + length (stringifyCache H cache)"
  by (simp add: saveCache_def)

lemma saveCache_complete:
  fixes H :: "'p helpers"
  assumes "\<not> saveCacheRejects H fs cache p"
  shows "node (fs_after H (length (saveCache H fs cache p)) (saveCache H fs cache p) fs) p
         = Text (stringifyCache H cache)"
  using saveCache_progress [OF assms, of "length (stringifyCache H cache)"]
  by (simp add: saveCache_length)

subsection \<open>The cache that is saved\<close>

lemma cacheHits_fold:
  "fold (\<lambda>str m. if cached lc (hashString H str) then m(hashString H str \<mapsto> the (lc (hashString H str))) else m)
        strs m h = Some t
   \<Longrightarrow> m h = Some t \<or> lc h = Some t \<and> h \<in> hashString H ` set strs"
proof (induction strs arbitrary: m)
  case Nil
  then show ?case by simp
next
  case (Cons s strs)
  let ?m = "if cached lc (hashString H s) then m(hashString H s \<mapsto> the (lc (hashString H s))) else m"
  have "?m h = Some t \<or> lc h = Some t \<and> h \<in> hashString H ` set strs"
    using Cons.IH [of ?m] Cons.prems by simp
  then show ?case
  proof
    assume a: "?m h = Some t"
    show ?thesis
    proof (cases "cached lc (hashString H s) \<and> h = hashString H s")
      case True
      then have "lc h \<noteq> None" by (auto simp: cached_def split: option.splits)
      then have "lc h = Some t" using a True by auto
      then show ?thesis using True by simp
    next
      case False
      then have "m h = Some t" using a by (auto split: if_splits)
      then show ?thesis by simp
    qed
  next
    assume "lc h = Some t \<and> h \<in> hashString H ` set strs"
    then show ?thesis by simp
  qed
qed

lemma cacheHits_Some:
  "cacheHits H lc strs h = Some t \<Longrightarrow> lc h = Some t \<and> h \<in> hashString H ` set strs"
  using cacheHits_fold [of lc H strs Map.empty h t] by (simp add: cacheHits_def)

lemma fold_mergeEntry_agrees:
  assumes "\<forall>h t. tm h = Some t \<longrightarrow> langCacheOf c f l h = Some t"
  shows "\<forall>h t. fst (fold (mergeEntry H True f l) es (tm, c, n)) h = Some t
           \<longrightarrow> langCacheOf (fst (snd (fold (mergeEntry H True f l) es (tm, c, n)))) f l h = Some t"
  using assms
proof (induction es arbitrary: tm c n)
  case Nil
  then show ?case by simp
next
  case (Cons e es)
  obtain s t where e: "e = (s, t)" by (cases e)
  have step: "mergeEntry H True f l e (tm, c, n)
              = (tm(hashString H s \<mapsto> t), cacheRecord c f l (hashString H s) t, Suc n)"
    by (simp add: mergeEntry_def e)
  have "\<forall>h t'. (tm(hashString H s \<mapsto> t)) h = Some t'
           \<longrightarrow> langCacheOf (cacheRecord c f l (hashString H s) t) f l h = Some t'"
    using Cons.prems by (simp add: langCacheOf_cacheRecord)
  from Cons.IH [OF this, of "Suc n"] show ?case by (simp only: fold_simps o_apply step)
qed

lemma fold_mergeEntry_count:
  "snd (snd (fold (mergeEntry H b f l) es (tm, c, n))) = n + length es"
  by (induction es arbitrary: tm c n) (auto simp: mergeEntry_def)

lemma merge_dom:
  "dom (fold (\<lambda>(original, translated) m. m(hashString H original \<mapsto> translated)) es m)
   \<subseteq> dom m \<union> hashString H ` fst ` set es"
proof (induction es arbitrary: m)
  case Nil
  then show ?case by simp
next
  case (Cons e es)
  obtain s t where e: "e = (s, t)" by (cases e)
  show ?case using Cons [of "m(hashString H s \<mapsto> t)"] by (auto simp: e)
qed

lemma langCacheOf_prune:
  "langCacheOf (fst (pruneCache H c f l strs)) f l h
   = (if h \<in> hashString H ` set strs then langCacheOf c f l h else None)"
  by (auto simp: pruneCache_def langCacheOf_def Let_def restrict_map_def split: option.splits)

lemma cacheMisses_subset: "set (cacheMisses H lc strs) \<subseteq> set strs"
  by (auto simp: cacheMisses_def)

text \<open>
  The single-file path: the cache handed to saveCache holds, for the document and the
  language, every translation of the translation map, the one that the rebuild
  applies.
\<close>

lemma single_saved_agrees:
  assumes "fst (snd (singleFileTranslate H T opts c0 f sl strs)) = Some c"
      and "fst (singleFileTranslate H T opts c0 f sl strs) h = Some t"
  shows "langCacheOf c f (lang opts) h = Some t"
proof -
  let ?l = "lang opts"
  let ?lc = "langCacheOf c0 f ?l"
  let ?misses = "cacheMisses H ?lc strs"
  let ?res = "map (\<lambda>batch. translateBatch H T batch ?l sl (shouldPreserveFormats opts)
                              (translationContext opts)) (single_file_batches ?misses)"
  let ?st = "fold (mergeEntry H True f ?l) (concat ?res) (cacheHits H ?lc strs, c0, 0)"
  have u: "useCache opts"
    using assms(1) by (auto simp: singleFileTranslate_def Let_def split_beta split: if_splits)
  have tm: "fst (singleFileTranslate H T opts c0 f sl strs) = fst ?st"
    using u by (simp add: singleFileTranslate_def Let_def split_beta mergeBatches_def)
  have c: "c = fst (pruneCache H (fst (snd ?st)) f ?l strs)"
    using assms(1) u
    by (simp add: singleFileTranslate_def Let_def split_beta mergeBatches_def split: if_splits)
  have init: "\<forall>h t. cacheHits H ?lc strs h = Some t \<longrightarrow> langCacheOf c0 f ?l h = Some t"
    using cacheHits_Some by blast
  have agree: "langCacheOf (fst (snd ?st)) f ?l h = Some t"
    using fold_mergeEntry_agrees [OF init, of H "concat ?res" 0] assms(2) tm by simp
  have k1: "fst ` set (concat ?res) \<subseteq> set (concat (single_file_batches ?misses))"
    by (rule results_keys)
  have k2: "concat (single_file_batches ?misses) = ?misses"
    by (rule single_file_batches_concat)
  have keys: "fst ` set (concat ?res) \<subseteq> set strs"
    using k1 cacheMisses_subset [of H ?lc strs] unfolding k2 by (rule subset_trans)
  have "h \<in> dom (fst ?st)" using assms(2) tm by auto
  then have "h \<in> dom (cacheHits H ?lc strs) \<union> hashString H ` fst ` set (concat ?res)"
    using merge_dom [of H "concat ?res" "cacheHits H ?lc strs"]
    by (auto simp: fold_mergeEntry_fst)
  then consider "h \<in> dom (cacheHits H ?lc strs)" | "h \<in> hashString H ` fst ` set (concat ?res)"
    by blast
  then have "h \<in> hashString H ` set strs"
  proof cases
    case 1
    then obtain t' where "cacheHits H ?lc strs h = Some t'" by blast
    then show ?thesis using cacheHits_Some [of H ?lc strs h t'] by simp
  next
    case 2
    then show ?thesis using keys by blast
  qed
  then show ?thesis using agree by (simp add: c langCacheOf_prune)
qed

text \<open>saveCache is called whenever the backend has answered with a translation.\<close>

lemma single_saved_if_translated:
  assumes "useCache opts"
      and "concat (map (\<lambda>batch. translateBatch H T batch (lang opts) sl (shouldPreserveFormats opts)
                                   (translationContext opts))
                        (snd (snd (singleFileTranslate H T opts c0 f sl strs)))) \<noteq> []"
  shows "fst (snd (singleFileTranslate H T opts c0 f sl strs)) \<noteq> None"
proof -
  have "0 < snd (snd (fold (mergeEntry H True f (lang opts))
                   (concat (map (\<lambda>batch. translateBatch H T batch (lang opts) sl
                                           (shouldPreserveFormats opts) (translationContext opts))
                                (snd (snd (singleFileTranslate H T opts c0 f sl strs)))))
                   (cacheHits H (langCacheOf c0 f (lang opts)) strs, c0, 0)))"
    using assms(2) by (simp add: fold_mergeEntry_count)
  then show ?thesis
    using assms(1)
    by (simp add: singleFileTranslate_def Let_def split_beta mergeBatches_def)
qed

text \<open>
  The multi-file path: the cache handed to saveCache holds every translation of
  \<^verbatim>\<open>globalTranslations\<close> under every file that is listed for its string.
\<close>

lemma multiFileTranslate_saved:
  "fst (snd (multiFileTranslate H T opts c0 sl gm)) = Some c \<Longrightarrow>
   c = updateCache H (lang opts) (fst (multiFileTranslate H T opts c0 sl gm)) gm c0"
  by (auto simp: multiFileTranslate_def Let_def split: if_splits)

lemma multi_saved_recorded:
  assumes "fst (snd (multiFileTranslate H T opts c0 sl gm)) = Some c"
      and "(str, files) \<in> set gm" "f \<in> set files"
      and "fst (multiFileTranslate H T opts c0 sl gm) (hashString H str) = Some t"
  shows "langCacheOf c f (lang opts) (hashString H str) = Some t"
  unfolding multiFileTranslate_saved [OF assms(1)]
  using assms(2,3,4) by (rule updateCache_recorded)

lemma multi_saved_iff:
  "fst (snd (multiFileTranslate H T opts c0 sl gm)) \<noteq> None
   \<longleftrightarrow> useCache opts \<and> globalMisses H c0 (lang opts) gm \<noteq> []"
  by (auto simp: multiFileTranslate_def Let_def)

lemma multiFileTranslate_gm_empty:
  "fst (snd (multiFileTranslate H T opts c0 sl [])) = None"
  "fst (multiFileTranslate H T opts c0 sl []) = fst (multiFileTranslate H T opts Map.empty sl [])"
  "snd (snd (multiFileTranslate H T opts c0 sl [])) = []"
  by (simp_all add: multiFileTranslate_def Let_def globalMisses_def globalHits_def
        multi_file_batches_def numBatches_def ceil_div_def MAX_BATCH_SIZE_def mergeGlobal_def)

lemma processMultipleFiles_fields:
  fixes T :: translator and inputPatterns :: "string list"
  assumes "\<not> dryRun opts"
      and "asCache (if useCache opts then loadCache H fs (resolvedCacheFile H (cacheFile opts))
                    else JObject []) = Some c0"
  defines "uniqueFiles \<equiv> new_Set (concat (map (expandPattern H) inputPatterns))"
  defines "gm \<equiv> snd (fold (collectFile H fs opts) uniqueFiles ([], []))"
  defines "sl \<equiv> fst (detectSourceLang T (detectSource opts) (take 10 (map fst gm)))"
  defines "mt \<equiv> multiFileTranslate H T opts c0 sl gm"
  defines "r \<equiv> processMultipleFiles H T fs inputPatterns opts"
  shows "saved r = (if uniqueFiles = [] then None else fst (snd mt))"
    and "batches r = (if uniqueFiles = [] then [] else snd (snd mt))"
proof -
  let ?loaded = "if useCache opts then loadCache H fs (resolvedCacheFile H (cacheFile opts))
                 else JObject []"
  have p: "\<not> probesThrow H ?loaded (lang opts) gm"
    using probes_typed [OF assms(2)] by blast
  show "saved r = (if uniqueFiles = [] then None else fst (snd mt))"
  proof (cases "gm = []")
    case True
    then show ?thesis
      using assms(1,2) p multiFileTranslate_gm_empty(1) [of H T opts]
      unfolding r_def mt_def sl_def processMultipleFiles_def
      by (simp add: Let_def split_beta no_effects_def gm_def [symmetric] uniqueFiles_def [symmetric])
  next
    case False
    then show ?thesis
      using assms(1,2) p
      unfolding r_def mt_def sl_def processMultipleFiles_def
      by (simp add: Let_def split_beta no_effects_def gm_def [symmetric] uniqueFiles_def [symmetric])
  qed
  show "batches r = (if uniqueFiles = [] then [] else snd (snd mt))"
  proof (cases "gm = []")
    case True
    then show ?thesis
      using assms(1,2) p multiFileTranslate_gm_empty(3) [of H T opts]
      unfolding r_def mt_def sl_def processMultipleFiles_def
      by (simp add: Let_def split_beta no_effects_def gm_def [symmetric] uniqueFiles_def [symmetric])
  next
    case False
    then show ?thesis
      using assms(1,2) p
      unfolding r_def mt_def sl_def processMultipleFiles_def
      by (simp add: Let_def split_beta no_effects_def gm_def [symmetric] uniqueFiles_def [symmetric])
  qed
qed

subsection \<open>An interrupted save\<close>

lemma save_ex_ops:
  "saveCache exHelpers exFs c ''cache.json''
   = OpenTruncate ''cache.json'' # map (\<lambda>ch. Append ''cache.json'' [ch]) ''cache-1''"
  by (simp add: saveCache_def ensureCacheDirectory_def)

lemma save_ex_accepted: "\<not> saveCacheRejects exHelpers exFs c ''cache.json''"
  using exec_appends [of exHelpers "''cache.json''" "''cache-1''" exFs "[]"]
  by (simp only: saveCacheRejects_def save_ex_ops exec.simps fs_step.simps exFs_simps
        exHelpers_simps file_state.case if_False simp_thms option.case snd_conv append_Nil)





section \<open>Runs over documents with bracket-shaped keys\<close>

lemma translateBatch_ex_Hello:
  "translateBatch exHelpers exTranslator [''Hello''] ''es'' ''English'' False None = [(''Hello'', ''es:Hello'')]"
  by (simp add: translateBatch_def processedStrings_def)

lemma translate_docC:
  "singleFileTranslate exHelpers exTranslator (exOptions\<lparr>useCache := False\<rparr>) Map.empty ''c.json'' ''English'' [''Hello'']
   = ([''#Hello'' \<mapsto> ''es:Hello''], None, [[''Hello'']])"
  by (simp add: singleFileTranslate_def Let_def single_file_batches_one translateBatch_ex_Hello
        mergeBatches_def mergeEntry_def)

text \<open>
  Claim C1 on a document in which the string \<open>Hello\<close> occurs twice, once under the
  key \<open>[0]\<close>: the string is sent to the backend once, but in the output only the
  occurrence under \<open>a\<close> carries the translation; the occurrence under \<open>[0]\<close>
  keeps the original, and the translation lands under a new key \<open>0\<close>.
\<close>

theorem C1_repeated_string_bracket_key:
  "docC = JObject [(''[0]'', JString ''Hello''), (''a'', JString ''Hello'')]
   \<and> batches (processSingleFile exHelpers exTranslator exFs ''c.json'' (exOptions\<lparr>useCache := False\<rparr>))
       = [[''Hello'']]
   \<and> written (processSingleFile exHelpers exTranslator exFs ''c.json'' (exOptions\<lparr>useCache := False\<rparr>))
       = [(''out.json'', JObject [(''0'', JString ''es:Hello''), (''[0]'', JString ''Hello''),
                                  (''a'', JString ''es:Hello'')])]"
proof -
  have c: "asCache (if useCache (exOptions\<lparr>useCache := False\<rparr>)
                    then loadCache exHelpers exFs
                           (resolvedCacheFile exHelpers (cacheFile (exOptions\<lparr>useCache := False\<rparr>)))
                    else JObject []) = Some Map.empty"
    by simp
  note f = processSingleFile_fields [OF _ _ c, of "''c.json''" docC exTranslator]
  have 1: "batches (processSingleFile exHelpers exTranslator exFs ''c.json'' (exOptions\<lparr>useCache := False\<rparr>))
       = [[''Hello'']]"
    using f(1) by (simp add: detectSourceLang_def translate_docC)
  have 2: "written (processSingleFile exHelpers exTranslator exFs ''c.json'' (exOptions\<lparr>useCache := False\<rparr>))
       = [(''out.json'', JObject [(''0'', JString ''es:Hello''), (''[0]'', JString ''Hello''),
                                  (''a'', JString ''es:Hello'')])]"
    using f(4) [of "JObject [(''0'', JString ''es:Hello''), (''[0]'', JString ''Hello''),
                                  (''a'', JString ''es:Hello'')]"]
    by (simp add: detectSourceLang_def translate_docC rebuild_docC finishDocument_def)
  show ?thesis using 1 2 by (simp add: docC_def)
qed

lemma exShortTranslator_detect [simp]: "detectLanguage exShortTranslator = None"
  by (simp add: exShortTranslator_def)

lemma short_translate:
  "translate exShortTranslator [''Hello''] ''es'' ''English'' None = None"
  by (simp add: exShortTranslator_def validated_translate_def validateResponse_def)

lemma translateBatch_short:
  "translateBatch exHelpers exShortTranslator [''Hello''] ''es'' ''English'' False None = []"
  by (simp add: translateBatch_def processedStrings_def short_translate)

lemma langCache_docD [simp]:
  "langCacheOf exCache ''d.json'' ''es'' = [''#Bye'' \<mapsto> ''Adios'']"
  by (simp add: langCacheOf_def exCache_def)

lemma misses_docD:
  "cacheMisses exHelpers [''#Bye'' \<mapsto> ''Adios''] [''Hello'', ''Bye''] = [''Hello'']"
  "cacheHits exHelpers [''#Bye'' \<mapsto> ''Adios''] [''Hello'', ''Bye''] = [''#Bye'' \<mapsto> ''Adios'']"
  by (simp_all add: cacheMisses_def cacheHits_def cached_def)

lemma prune_docD:
  "snd (pruneCache exHelpers exCache ''d.json'' ''es'' [''Hello'', ''Bye'']) = {}"
  by (auto simp: pruneCache_def exCache_def Let_def)

lemma translate_docD:
  "singleFileTranslate exHelpers exShortTranslator exOptions exCache ''d.json'' ''English'' [''Hello'', ''Bye'']
   = ([''#Bye'' \<mapsto> ''Adios''], None, [[''Hello'']])"
  by (simp add: singleFileTranslate_def Let_def misses_docD single_file_batches_one
        translateBatch_short mergeBatches_def split_beta prune_docD)

text \<open>
  Claim C3 on two documents with a key that starts with \<open>[\<close> and ends with \<open>]\<close>,
  each with the mapping that a run over it builds. In the first the mapping covers
  \<open>Hello\<close>, the string of both leaves: the leaf under \<open>[0]\<close> keeps its original
  value and the rebuilt tree has a third key, \<open>0\<close>, where the specified result has
  both leaves replaced and nothing else changed. In the second the mapping covers
  \<open>Bye\<close> only: the leaf under \<open>0\<close>, which the mapping does not cover, is
  overwritten and the covered leaf is not.
\<close>

theorem C3_reconstruction_bracket_key:
  "fst (singleFileTranslate exHelpers exTranslator (exOptions\<lparr>useCache := False\<rparr>) Map.empty
          ''c.json'' ''English'' (new_Set (map snd (flattenObjectWithPaths docC))))
     = [''#Hello'' \<mapsto> ''es:Hello'']
   \<and> rebuild (hashString exHelpers) (flattenObjectWithPaths docC) [''#Hello'' \<mapsto> ''es:Hello''] docC
       = Some (Inr (JObject [(''0'', JString ''es:Hello''), (''[0]'', JString ''Hello''),
                             (''a'', JString ''es:Hello'')]))
   \<and> map_strings (translated_value (hashString exHelpers) [''#Hello'' \<mapsto> ''es:Hello'']) docC
       = JObject [(''[0]'', JString ''es:Hello''), (''a'', JString ''es:Hello'')]
   \<and> fst (singleFileTranslate exHelpers exShortTranslator exOptions exCache
              ''d.json'' ''English'' (new_Set (map snd (flattenObjectWithPaths docD))))
       = [''#Bye'' \<mapsto> ''Adios'']
   \<and> rebuild (hashString exHelpers) (flattenObjectWithPaths docD) [''#Bye'' \<mapsto> ''Adios''] docD
       = Some (Inr (JObject [(''0'', JString ''Adios''), (''[0]'', JString ''Bye'')]))
   \<and> map_strings (translated_value (hashString exHelpers) [''#Bye'' \<mapsto> ''Adios'']) docD
       = JObject [(''0'', JString ''Hello''), (''[0]'', JString ''Adios'')]"
proof -
  have 1: "map_strings (translated_value (hashString exHelpers) [''#Hello'' \<mapsto> ''es:Hello'']) docC
       = JObject [(''[0]'', JString ''es:Hello''), (''a'', JString ''es:Hello'')]"
    by (simp add: docC_def translated_value_def)
  have 2: "map_strings (translated_value (hashString exHelpers) [''#Bye'' \<mapsto> ''Adios'']) docD
       = JObject [(''0'', JString ''Hello''), (''[0]'', JString ''Adios'')]"
    by (simp add: docD_def translated_value_def)
  show ?thesis
    using 1 2 by (simp add: translate_docC translate_docD rebuild_docC rebuild_docD)
qed

text \<open>
  Claim C4 on a document with the keys \<open>0\<close> and \<open>[0]\<close>: the one batch, holding
  \<open>Hello\<close>, fails validation (one result too few) and contributes nothing, and the
  run completes; but the cached translation of \<open>Bye\<close>, the string under \<open>[0]\<close>,
  is written over the leaf under \<open>0\<close>, so the string of the failed batch does not
  keep its original value.
\<close>

theorem C4_failed_batch_bracket_key:
  "docD = JObject [(''0'', JString ''Hello''), (''[0]'', JString ''Bye'')]
   \<and> batches (processSingleFile exHelpers exShortTranslator exFs ''d.json'' exOptions) = [[''Hello'']]
   \<and> translateBatch exHelpers exShortTranslator [''Hello''] ''es'' ''English'' False None = []
   \<and> status (processSingleFile exHelpers exShortTranslator exFs ''d.json'' exOptions) = Returned
   \<and> written (processSingleFile exHelpers exShortTranslator exFs ''d.json'' exOptions)
       = [(''out.json'', JObject [(''0'', JString ''Adios''), (''[0]'', JString ''Bye'')])]"
proof -
  have c: "asCache (if useCache exOptions
                    then loadCache exHelpers exFs (resolvedCacheFile exHelpers (cacheFile exOptions))
                    else JObject []) = Some exCache"
    by simp
  note f = processSingleFile_fields [OF _ _ c, of "''d.json''" docD exShortTranslator]
  have 1: "batches (processSingleFile exHelpers exShortTranslator exFs ''d.json'' exOptions) = [[''Hello'']]"
    using f(1) by (simp add: detectSourceLang_def translate_docD)
  have 2: "status (processSingleFile exHelpers exShortTranslator exFs ''d.json'' exOptions) = Returned
         \<and> written (processSingleFile exHelpers exShortTranslator exFs ''d.json'' exOptions)
             = [(''out.json'', JObject [(''0'', JString ''Adios''), (''[0]'', JString ''Bye'')])]"
    using f(4) [of "JObject [(''0'', JString ''Adios''), (''[0]'', JString ''Bye'')]"]
    by (simp add: detectSourceLang_def translate_docD rebuild_docD finishDocument_def)
  show ?thesis using 1 2 by (simp add: docD_def translateBatch_short)
qed


end
